theory Spec2Isabelle
  imports Main "HOL-Library.AList"
begin

section \<open>Python string primitives used by the parser\<close>

text \<open>
  The program text is a Python \<open>str\<close>. It is modelled as a \<open>string\<close> whose characters
  are the code points 0..255; on this range \<open>\d\<close> is the ASCII digits, \<open>str.isspace\<close>
  is the set listed in \<open>isspace\<close>, and lower-casing adds 32 to the upper-case letters.
\<close>

definition is_digit :: "char \<Rightarrow> bool" where
  "is_digit c = (48 \<le> (of_char c :: nat) \<and> (of_char c :: nat) \<le> 57)"

definition digit_val :: "char \<Rightarrow> int" where
  "digit_val c = int (of_char c) - 48"

definition isspace :: "char \<Rightarrow> bool" where
  "isspace c = (let k = (of_char c :: nat) in
     (9 \<le> k \<and> k \<le> 13) \<or> (28 \<le> k \<and> k \<le> 32) \<or> k = 133 \<or> k = 160)"

definition lower :: "char \<Rightarrow> char" where
  "lower c = (let k = (of_char c :: nat) in
     if (65 \<le> k \<and> k \<le> 90) \<or> (192 \<le> k \<and> k \<le> 222 \<and> k \<noteq> 215)
     then char_of (k + 32) else c)"

text \<open>\<open>s.strip()\<close>: leading and trailing whitespace removed.\<close>

definition strip :: "string \<Rightarrow> string" where
  "strip s = rev (dropWhile isspace (rev (dropWhile isspace s)))"

text \<open>\<open>xs[a:b]\<close> for indices \<open>0 \<le> a\<close>, \<open>0 \<le> b\<close>: both are clamped to the length, and
  the slice is empty when \<open>b \<le> a\<close>.\<close>

definition slice :: "'a list \<Rightarrow> nat \<Rightarrow> nat \<Rightarrow> 'a list" where
  "slice xs a b = take (b - a) (drop a xs)"

text \<open>\<open>s.split('\n')\<close>: always at least one piece.\<close>

fun split_nl :: "string \<Rightarrow> string list" where
  "split_nl [] = [[]]"
| "split_nl (c # cs) =
     (if c = CHR 0x0A then [] # split_nl cs
      else (case split_nl cs of [] \<Rightarrow> [[c]] | l # ls \<Rightarrow> (c # l) # ls))"

text \<open>\<open>'\n'.join(xs)\<close>.\<close>

fun join_nl :: "string list \<Rightarrow> string" where
  "join_nl [] = []"
| "join_nl [x] = x"
| "join_nl (x # y # ys) = x @ CHR 0x0A # join_nl (y # ys)"

text \<open>\<open>str(k)\<close> for a non-negative integer, as the f-string \<open>{day}\<close> formats it.\<close>

fun str_nat :: "nat \<Rightarrow> string" where
  "str_nat k = (if k < 10 then [char_of (48 + k)]
                else str_nat (k div 10) @ [char_of (48 + k mod 10)])"

declare str_nat.simps [simp del]

datatype error = ValueError | ZeroDivisionError

text \<open>
  \<open>int(s)\<close> on a non-empty string of digits is its decimal value, unless the string has
  more digits than \<open>sys.int_max_str_digits\<close> (4300 by default in CPython), in which case
  it raises \<open>ValueError\<close>; leading zeros count. On every string that is not a non-empty
  string of digits the model raises \<open>ValueError\<close> as well (Python also accepts a sign,
  underscores and surrounding whitespace, none of which \<open>\d+\<close> can capture).
\<close>

definition int_max_str_digits :: nat where
  "int_max_str_digits = 4300"

definition decimal :: "string \<Rightarrow> int" where
  "decimal s = foldl (\<lambda>a c. 10 * a + digit_val c) 0 s"

definition py_int :: "string \<Rightarrow> error + int" where
  "py_int s =
     (if s \<noteq> [] \<and> list_all is_digit s
      then (if int_max_str_digits < length s then Inl ValueError else Inr (decimal s))
      else Inl ValueError)"

section \<open>Regular expressions of the separators\<close>

text \<open>
  Every separator is a sequence of literal characters around one capture group
  \<open>(\d+)\<close>. All searches pass \<open>re.IGNORECASE\<close>, so a literal matches a character of
  the text when both have the same lower-case form. \<open>\d+\<close> is greedy: it first takes the
  whole run of digits and gives digits back one at a time while the rest of the pattern
  fails, keeping at least one.
\<close>

datatype re_item = Lit char | Digits

fun first_some :: "('a \<Rightarrow> 'b option) \<Rightarrow> 'a list \<Rightarrow> 'b option" where
  "first_some f [] = None"
| "first_some f (x # xs) = (case f x of Some y \<Rightarrow> Some y | None \<Rightarrow> first_some f xs)"

text \<open>\<open>re_match p s\<close> matches \<open>p\<close> at the beginning of \<open>s\<close>; the result is the number of
  characters consumed and the text of group 1.\<close>

fun re_match :: "re_item list \<Rightarrow> string \<Rightarrow> (nat \<times> string) option" where
  "re_match [] s = Some (0, [])"
| "re_match (Lit c # p) [] = None"
| "re_match (Lit c # p) (t # ts) =
     (if lower t = lower c
      then (case re_match p ts of None \<Rightarrow> None | Some (l, g) \<Rightarrow> Some (Suc l, g))
      else None)"
| "re_match (Digits # p) s =
     first_some
       (\<lambda>k. case re_match p (drop k s) of None \<Rightarrow> None
                                        | Some (l, g) \<Rightarrow> Some (k + l, take k s))
       (rev [1 ..< Suc (length (takeWhile is_digit s))])"

record re_Match =
  m_start :: nat
  m_end :: nat
  m_group1 :: string

text \<open>
  \<open>list(re.finditer(p, text, re.IGNORECASE))\<close>: the non-overlapping matches from left
  to right. \<open>scan p pos s\<close> searches the rest \<open>s\<close> of the text that begins at offset
  \<open>pos\<close>. After a match of \<open>l\<close> characters the search resumes at its end; every
  separator consumes at least five characters, and then \<open>drop (l - 1) cs\<close> is the text
  after the match.
\<close>

fun scan :: "re_item list \<Rightarrow> nat \<Rightarrow> string \<Rightarrow> re_Match list" where
  "scan p pos [] = []"
| "scan p pos (c # cs) =
     (case re_match p (c # cs) of
        None \<Rightarrow> scan p (Suc pos) cs
      | Some (l, g) \<Rightarrow>
          \<lparr>m_start = pos, m_end = pos + l, m_group1 = g\<rparr> # scan p (pos + l) (drop (l - 1) cs))"

definition finditer :: "re_item list \<Rightarrow> string \<Rightarrow> re_Match list" where
  "finditer p text = scan p 0 text"

section \<open>The parsing step of generate_program\<close>

text \<open>
  The block of \<open>generate_program\<close> in \<open>web_api_server.py\<close> that turns
  \<open>weekly_program_text\<close> into the dictionary \<open>weekly_program\<close>. The argument \<open>n\<close> is
  \<open>assessment_data['training_days_per_week']\<close>, a count of days, modelled as a natural
  number; every index computed from it is then non-negative, where a Python slice only
  clamps to the length. The keys of the dictionary are Python integers.
\<close>

text \<open>The five separators, in the order of the list \<open>possible_separators\<close>.\<close>

definition sep_day_colon :: "re_item list" where
  "sep_day_colon = map Lit ''Day '' @ [Digits, Lit CHR '':'']"

definition sep_day_nl :: "re_item list" where
  "sep_day_nl = map Lit ''Day '' @ [Digits, Lit (CHR 0x0A)]"

definition sep_day :: "re_item list" where
  "sep_day = map Lit ''Day '' @ [Digits]"

definition sep_DAY_colon :: "re_item list" where
  "sep_DAY_colon = map Lit ''DAY '' @ [Digits, Lit CHR '':'']"

definition sep_DAY :: "re_item list" where
  "sep_DAY = map Lit ''DAY '' @ [Digits]"

definition possible_separators :: "re_item list list" where
  "possible_separators = [sep_day_colon, sep_day_nl, sep_day, sep_DAY_colon, sep_DAY]"

text \<open>The dictionary \<open>weekly_program\<close>: an association list in insertion order;
  assigning to a key that is present replaces its value in place.\<close>

type_synonym weekly_program = "(int \<times> string) list"

text \<open>The end offset of the segment of match \<open>i\<close>: the start of match \<open>i + 1\<close> of the
  whole list \<open>matches\<close> when there is one, the length of the text otherwise.\<close>

definition end_pos :: "string \<Rightarrow> re_Match list \<Rightarrow> nat \<Rightarrow> nat" where
  "end_pos text matches i =
     (if i + 1 < length matches then m_start (matches ! (i + 1)) else length text)"

definition day_content :: "string \<Rightarrow> re_Match list \<Rightarrow> nat \<Rightarrow> re_Match \<Rightarrow> string" where
  "day_content text matches i m = strip (slice text (m_start m) (end_pos text matches i))"

text \<open>The loop \<open>for i, match in enumerate(matches[:n])\<close>.\<close>

fun assign_days ::
  "string \<Rightarrow> re_Match list \<Rightarrow> (nat \<times> re_Match) list \<Rightarrow> weekly_program \<Rightarrow> error + weekly_program"
where
  "assign_days text matches [] wp = Inr wp"
| "assign_days text matches ((i, m) # ims) wp =
     (case py_int (m_group1 m) of
        Inl e \<Rightarrow> Inl e
      | Inr day_num \<Rightarrow>
          assign_days text matches ims
            (AList.update day_num (day_content text matches i m) wp))"

text \<open>The body run for the separator that qualifies: the first \<open>n\<close> matches are
  assigned to an empty dictionary.\<close>

definition parse_with :: "string \<Rightarrow> nat \<Rightarrow> re_Match list \<Rightarrow> error + weekly_program" where
  "parse_with text n matches = assign_days text matches (enumerate 0 (take n matches)) []"

text \<open>The loop over the separators; \<open>None\<close> is \<open>parsed = False\<close> after the loop.\<close>

fun try_separators ::
  "re_item list list \<Rightarrow> string \<Rightarrow> nat \<Rightarrow> (error + weekly_program) option" where
  "try_separators [] text n = None"
| "try_separators (separator # seps) text n =
     (let matches = finditer separator text in
      if n \<le> length matches
      then Some (parse_with text n matches)
      else try_separators seps text n)"

text \<open>The fallback: the stripped text is split into lines, which are dealt out by
  position.\<close>

definition lines_per_day :: "string list \<Rightarrow> nat \<Rightarrow> nat" where
  "lines_per_day lines n = max 1 (length lines div n)"

definition day_lines :: "string list \<Rightarrow> nat \<Rightarrow> nat \<Rightarrow> string list" where
  "day_lines lines n day =
     (let start_line = (day - 1) * lines_per_day lines n;
          end_line = (if day < n then day * lines_per_day lines n else length lines)
      in slice lines start_line end_line)"

definition fallback_content :: "string list \<Rightarrow> nat \<Rightarrow> nat \<Rightarrow> string" where
  "fallback_content lines n day =
     ''Day '' @ str_nat day @ '':'' @ [CHR 0x0A] @ join_nl (day_lines lines n day)"

fun fallback_days :: "string list \<Rightarrow> nat \<Rightarrow> nat list \<Rightarrow> weekly_program \<Rightarrow> weekly_program" where
  "fallback_days lines n [] wp = wp"
| "fallback_days lines n (day # days) wp =
     fallback_days lines n days (AList.update (int day) (fallback_content lines n day) wp)"

definition fallback :: "string \<Rightarrow> nat \<Rightarrow> error + weekly_program" where
  "fallback text n =
     (let lines = split_nl (strip text) in
      if n = 0 then Inl ZeroDivisionError
      else Inr (fallback_days lines n [1 ..< Suc n] []))"

definition segment_with :: "re_item list list \<Rightarrow> string \<Rightarrow> nat \<Rightarrow> error + weekly_program" where
  "segment_with seps text n =
     (case try_separators seps text n of Some r \<Rightarrow> r | None \<Rightarrow> fallback text n)"

definition segment :: "string \<Rightarrow> nat \<Rightarrow> error + weekly_program" where
  "segment text n = segment_with possible_separators text n"

section \<open>Auxiliary notions\<close>

text \<open>A literal in the form under which \<open>re.IGNORECASE\<close> compares it.\<close>

fun lower_item :: "re_item \<Rightarrow> re_item" where
  "lower_item (Lit c) = Lit (lower c)"
| "lower_item Digits = Digits"

text \<open>The assignments \<open>weekly_program[day_num] = day_content\<close> that the loop over the
  first \<open>n\<close> matches makes, in order.\<close>

definition taken_entries :: "string \<Rightarrow> re_Match list \<Rightarrow> nat \<Rightarrow> (int \<times> string) list" where
  "taken_entries text ms n =
     map (\<lambda>i. (decimal (m_group1 (ms ! i)), day_content text ms i (ms ! i))) [0 ..< n]"

text \<open>The separator at which the loop over \<open>possible_separators\<close> stops: the first
  one, in the order of the list, with at least \<open>n\<close> matches; \<open>None\<close> when the loop
  ends with \<open>parsed = False\<close>.\<close>

definition selected_separator :: "string \<Rightarrow> nat \<Rightarrow> re_item list option" where
  "selected_separator text n = find (\<lambda>p. n \<le> length (finditer p text)) possible_separators"

text \<open>No heading among the first \<open>n\<close> matches of the selected separator has more
  digits than \<open>int\<close> converts; on the fallback path \<open>int\<close> is not called.\<close>

definition digits_within_limit :: "string \<Rightarrow> nat \<Rightarrow> bool" where
  "digits_within_limit text n =
     (case selected_separator text n of
        None \<Rightarrow> True
      | Some p \<Rightarrow>
          list_all (\<lambda>m. length (m_group1 m) \<le> int_max_str_digits) (take n (finditer p text)))"

section \<open>Characters, patterns and matches\<close>

lemma lower_D: "lower CHR ''D'' = CHR ''d''"
  by code_simp

lemma lower_eq_d:
  assumes "lower t = CHR ''d''"
  shows "t = CHR ''D'' \<or> t = CHR ''d''"
proof -
  define k :: nat where "k = of_char t"
  have kl: "k < 256" unfolding k_def by simp
  have t: "t = char_of k" unfolding k_def by simp
  have lw: "lower t = (if (65 \<le> k \<and> k \<le> 90) \<or> (192 \<le> k \<and> k \<le> 222 \<and> k \<noteq> 215)
                        then char_of (k + 32) else t)"
    by (simp only: lower_def Let_def k_def)
  show ?thesis
  proof (cases "(65 \<le> k \<and> k \<le> 90) \<or> (192 \<le> k \<and> k \<le> 222 \<and> k \<noteq> 215)")
    case True
    then have "lower t = char_of (k + 32)" by (simp only: lw if_True)
    with assms have "of_char (char_of (k + 32)) = (of_char CHR ''d'' :: nat)" by simp
    then have "(k + 32) mod 256 = 100" by simp
    moreover have "k + 32 < 256" using True by linarith
    ultimately have "k = 68" by simp
    then have "(of_char t :: nat) = of_char CHR ''D''" unfolding k_def by simp
    then have "t = CHR ''D''" by (simp only: of_char_eq_iff)
    then show ?thesis by simp
  next
    case False
    then have "lower t = t" by (simp only: lw if_False)
    with assms show ?thesis by simp
  qed
qed

lemma not_isspace_D:
  assumes "lower t = lower CHR ''D''"
  shows "\<not> isspace t"
proof -
  from assms have "lower t = CHR ''d''" by (simp only: lower_D)
  then have "t = CHR ''D'' \<or> t = CHR ''d''" by (rule lower_eq_d)
  moreover have "\<not> isspace CHR ''D''" by code_simp
  moreover have "\<not> isspace CHR ''d''" by code_simp
  ultimately show ?thesis by blast
qed

lemma first_some_SomeD: "first_some f xs = Some y \<Longrightarrow> \<exists>x \<in> set xs. f x = Some y"
  by (induction xs) (auto split: option.splits)

lemma take_takeWhile: "k \<le> length (takeWhile P s) \<Longrightarrow> take k s = take k (takeWhile P s)"
proof (induction s arbitrary: k)
  case Nil
  then show ?case by simp
next
  case (Cons a s)
  then show ?case by (cases k) (auto split: if_splits)
qed

lemma digits_prefix:
  assumes "1 \<le> k" "k \<le> length (takeWhile is_digit s)"
  shows "take k s \<noteq> [] \<and> list_all is_digit (take k s)"
proof -
  have e: "take k s = take k (takeWhile is_digit s)" using assms(2) by (rule take_takeWhile)
  have "set (take k (takeWhile is_digit s)) \<subseteq> set (takeWhile is_digit s)" by (rule set_take_subset)
  then have "\<forall>c \<in> set (take k s). is_digit c" unfolding e using set_takeWhileD [of _ is_digit s] by blast
  then have "list_all is_digit (take k s)" by (simp only: list_all_iff)
  moreover have "takeWhile is_digit s \<noteq> []" using assms by auto
  then have "s \<noteq> []" by auto
  then have "take k s \<noteq> []" using assms(1) by simp
  ultimately show ?thesis by simp
qed

lemma re_match_Digits_group:
  assumes "re_match (Digits # p) s = Some (l, g)"
  shows "g \<noteq> [] \<and> list_all is_digit g"
proof -
  from first_some_SomeD [OF assms [unfolded re_match.simps(4)]]
  obtain k where k: "k \<in> set (rev [1 ..< Suc (length (takeWhile is_digit s))])"
    and m: "(case re_match p (drop k s) of None \<Rightarrow> None | Some (l, g) \<Rightarrow> Some (k + l, take k s)) = Some (l, g)"
    by blast
  from m have g: "g = take k s" by (cases "re_match p (drop k s)") auto
  from k have k1: "1 \<le> k" and k2: "k \<le> length (takeWhile is_digit s)" by auto
  show ?thesis unfolding g using k1 k2 by (rule digits_prefix)
qed

lemma re_match_group:
  "re_match p s = Some (l, g) \<Longrightarrow> Digits \<in> set p \<Longrightarrow> g \<noteq> [] \<and> list_all is_digit g"
proof (induction p arbitrary: s l g)
  case Nil
  then show ?case by simp
next
  case (Cons a p)
  show ?case
  proof (cases a)
    case (Lit c)
    with Cons.prems obtain t ts l' where s: "s = t # ts" and r: "re_match p ts = Some (l', g)"
      by (cases s) (auto split: if_splits option.splits)
    from Cons.prems(2) Lit have "Digits \<in> set p" by simp
    with r show ?thesis by (rule Cons.IH)
  next
    case Digits
    with Cons.prems(1) have "re_match (Digits # p) s = Some (l, g)" by simp
    then show ?thesis by (rule re_match_Digits_group)
  qed
qed


text \<open>Case-insensitivity.\<close>

lemma re_match_lower:
  "map lower_item p = map lower_item q \<Longrightarrow> re_match p s = re_match q s"
proof (induction p arbitrary: q s)
  case Nil
  then show ?case by simp
next
  case (Cons a p)
  from Cons.prems obtain b q' where q: "q = b # q'" and ab: "lower_item a = lower_item b"
    and pq: "map lower_item p = map lower_item q'" by (cases q) auto
  have ih: "\<And>s. re_match p s = re_match q' s" using pq by (rule Cons.IH)
  show ?case
  proof (cases a)
    case (Lit c)
    with ab obtain d where b: "b = Lit d" and cd: "lower c = lower d" by (cases b) auto
    show ?thesis unfolding q Lit b using cd ih by (cases s) simp_all
  next
    case Digits
    with ab have b: "b = Digits" by (cases b) auto
    show ?thesis unfolding q Digits b by (simp add: ih)
  qed
qed

lemma scan_cong:
  "(\<And>s. re_match p s = re_match q s) \<Longrightarrow> scan p pos s = scan q pos s"
proof (induction p pos s rule: scan.induct)
  case (1 p pos)
  then show ?case by simp
next
  case (2 p pos c cs)
  show ?case
  proof (cases "re_match p (c # cs)")
    case None
    then have "re_match q (c # cs) = None" using "2.prems" by simp
    with None "2.IH"(1) "2.prems" show ?thesis by simp
  next
    case (Some a)
    obtain l g where a: "a = (l, g)" by (cases a)
    have "re_match q (c # cs) = Some (l, g)" using "2.prems" Some a by simp
    with Some a "2.IH"(2) [OF Some a [symmetric]] "2.prems" show ?thesis by simp
  qed
qed

lemma lower_A: "lower CHR ''A'' = lower CHR ''a''"
  by code_simp

lemma lower_Y: "lower CHR ''Y'' = lower CHR ''y''"
  by code_simp

lemma finditer_DAY_colon: "finditer sep_DAY_colon text = finditer sep_day_colon text"
  unfolding finditer_def
  by (rule scan_cong, rule re_match_lower) (simp add: sep_DAY_colon_def sep_day_colon_def lower_A lower_Y)

lemma finditer_DAY: "finditer sep_DAY text = finditer sep_day text"
  unfolding finditer_def
  by (rule scan_cong, rule re_match_lower) (simp add: sep_DAY_def sep_day_def lower_A lower_Y)


text \<open>The matches of a scan.\<close>

lemma re_match_Lit_head:
  "re_match (Lit a # r) s = Some (l, g) \<Longrightarrow> 0 < l \<and> s \<noteq> [] \<and> lower (hd s) = lower a"
  by (cases s) (auto split: if_splits option.splits)

lemma scan_bounds:
  "m \<in> set (scan p pos s) \<Longrightarrow> pos \<le> m_start m \<and> m_start m < pos + length s"
proof (induction p pos s rule: scan.induct)
  case (1 p pos)
  then show ?case by simp
next
  case (2 p pos c cs)
  show ?case
  proof (cases "re_match p (c # cs)")
    case None
    with "2.prems" have "m \<in> set (scan p (Suc pos) cs)" by simp
    with "2.IH"(1) [OF None] show ?thesis by simp
  next
    case (Some a)
    obtain l g where a: "a = (l, g)" by (cases a)
    from "2.prems" Some a
    consider "m = \<lparr>m_start = pos, m_end = pos + l, m_group1 = g\<rparr>"
      | "m \<in> set (scan p (pos + l) (drop (l - 1) cs))" by auto
    then show ?thesis
    proof cases
      case 1
      then show ?thesis by simp
    next
      case 2
      then have ne: "drop (l - 1) cs \<noteq> []" by (cases "drop (l - 1) cs") auto
      from "2.IH"(2) [OF Some a [symmetric] 2]
      have "pos + l \<le> m_start m" and "m_start m < pos + l + length (drop (l - 1) cs)" by simp_all
      moreover have "l - 1 < length cs" using ne by simp
      ultimately show ?thesis by simp
    qed
  qed
qed

lemma scan_match:
  "m \<in> set (scan (Lit a # r) pos s) \<Longrightarrow>
   re_match (Lit a # r) (drop (m_start m - pos) s) = Some (m_end m - m_start m, m_group1 m)"
proof (induction "Lit a # r" pos s rule: scan.induct)
  case (1 pos)
  then show ?case by simp
next
  case (2 pos c cs)
  show ?case
  proof (cases "re_match (Lit a # r) (c # cs)")
    case None
    with "2.prems" have in_rest: "m \<in> set (scan (Lit a # r) (Suc pos) cs)" by simp
    then have "Suc pos \<le> m_start m" using scan_bounds by blast
    then have "m_start m - pos = Suc (m_start m - Suc pos)" by simp
    with "2.hyps"(1) [OF None in_rest] show ?thesis by simp
  next
    case (Some x)
    obtain l g where x: "x = (l, g)" by (cases x)
    from Some x have lpos: "0 < l" using re_match_Lit_head by blast
    from "2.prems" Some x
    consider "m = \<lparr>m_start = pos, m_end = pos + l, m_group1 = g\<rparr>"
      | "m \<in> set (scan (Lit a # r) (pos + l) (drop (l - 1) cs))" by auto
    then show ?thesis
    proof cases
      case 1
      with Some x show ?thesis by simp
    next
      case 2
      then have "pos + l \<le> m_start m" using scan_bounds by blast
      then have e: "m_start m - pos = Suc ((m_start m - (pos + l)) + (l - 1))" using lpos by simp
      from "2.hyps"(2) [OF Some x [symmetric] 2] show ?thesis unfolding e by (simp add: add.commute)
    qed
  qed
qed

lemma scan_sorted:
  "sorted_wrt (\<lambda>x y. m_start x < m_start y) (scan (Lit a # r) pos s)"
proof (induction "Lit a # r" pos s rule: scan.induct)
  case (1 pos)
  then show ?case by simp
next
  case (2 pos c cs)
  show ?case
  proof (cases "re_match (Lit a # r) (c # cs)")
    case None
    with "2.hyps"(1) show ?thesis by simp
  next
    case (Some x)
    obtain l g where x: "x = (l, g)" by (cases x)
    from Some x have lpos: "0 < l" using re_match_Lit_head by blast
    have "\<forall>m \<in> set (scan (Lit a # r) (pos + l) (drop (l - 1) cs)). pos < m_start m"
      using scan_bounds lpos by fastforce
    with Some x "2.hyps"(2) [OF Some x [symmetric]] show ?thesis by simp
  qed
qed


text \<open>Stripping.\<close>

lemma strip_keeps_head:
  assumes "s \<noteq> []" "\<not> isspace (hd s)"
  shows "strip s \<noteq> [] \<and> hd (strip s) = hd s"
proof -
  obtain a s' where s: "s = a # s'" using assms(1) by (cases s) auto
  with assms(2) have a: "\<not> isspace a" by simp
  have d: "dropWhile isspace s = s" using s a by simp
  have "\<exists>zs. dropWhile isspace (rev s' @ [a]) = zs @ [a]"
    using a by (simp add: dropWhile_append)
  then obtain zs where "dropWhile isspace (rev s) = zs @ [a]" using s by auto
  then have "strip s = a # rev zs" unfolding strip_def d by simp
  then show ?thesis using s by simp
qed

lemma strip_ends:
  assumes "strip s \<noteq> []"
  shows "\<not> isspace (hd (strip s)) \<and> \<not> isspace (last (strip s))"
proof -
  define u where "u = dropWhile isspace s"
  define w where "w = dropWhile isspace (rev u)"
  have sw: "strip s = rev w" by (simp add: strip_def u_def w_def)
  with assms have wne: "w \<noteq> []" by simp
  then have "\<not> isspace (hd w)" unfolding w_def by (rule hd_dropWhile)
  then have l: "\<not> isspace (last (strip s))" using wne sw by (simp add: last_rev)
  have "rev u = takeWhile isspace (rev u) @ w" by (simp add: w_def)
  then have "last (rev u) = last w" using wne by (metis last_appendR)
  moreover have une: "u \<noteq> []" using wne w_def by auto
  ultimately have "last w = hd u" by (simp add: last_rev)
  moreover have "\<not> isspace (hd u)" using une unfolding u_def by (rule hd_dropWhile)
  ultimately have "\<not> isspace (hd (strip s))" using sw wne by (simp add: hd_rev)
  with l show ?thesis by simp
qed

lemma strip_fixed:
  assumes "t \<noteq> []" "\<not> isspace (hd t)" "\<not> isspace (last t)"
  shows "strip t = t"
proof -
  have "dropWhile isspace t = t" using assms(1,2) by (cases t) auto
  moreover have "dropWhile isspace (rev t) = rev t"
    using assms(1,3) by (cases "rev t") (auto simp: hd_rev [symmetric])
  ultimately show ?thesis by (simp add: strip_def)
qed

lemma strip_idem: "strip (strip s) = strip s"
proof (cases "strip s = []")
  case True
  have "strip [] = []" by (simp add: strip_def)
  with True show ?thesis by simp
next
  case False
  then show ?thesis using strip_ends [OF False] by (intro strip_fixed) simp_all
qed

text \<open>Integers of digit strings.\<close>

lemma foldl_digits_nonneg:
  "0 \<le> a \<Longrightarrow> list_all is_digit s \<Longrightarrow> 0 \<le> foldl (\<lambda>a c. 10 * a + digit_val c) a s"
proof (induction s arbitrary: a)
  case Nil
  then show ?case by simp
next
  case (Cons c s)
  from Cons.prems(2) have "0 \<le> digit_val c" by (simp add: is_digit_def digit_val_def)
  with Cons.prems(1) have "0 \<le> 10 * a + digit_val c" by simp
  moreover from Cons.prems(2) have "list_all is_digit s" by simp
  ultimately show ?case using Cons.IH by simp
qed

lemma decimal_nonneg: "list_all is_digit s \<Longrightarrow> 0 \<le> decimal s"
  unfolding decimal_def by (rule foldl_digits_nonneg) simp_all

lemma digit_val_zero: "is_digit c \<Longrightarrow> (digit_val c = 0) = (c = CHR ''0'')"
proof -
  assume "is_digit c"
  have "(digit_val c = 0) = ((of_char c :: nat) = 48)" by (simp add: digit_val_def)
  also have "\<dots> = ((of_char c :: nat) = of_char CHR ''0'')" by simp
  also have "\<dots> = (c = CHR ''0'')" by (simp only: of_char_eq_iff)
  finally show ?thesis .
qed

lemma foldl_digits_zero:
  "0 \<le> a \<Longrightarrow> list_all is_digit s \<Longrightarrow>
   (foldl (\<lambda>a c. 10 * a + digit_val c) a s = 0) = (a = 0 \<and> set s \<subseteq> {CHR ''0''})"
proof (induction s arbitrary: a)
  case Nil
  then show ?case by simp
next
  case (Cons c s)
  from Cons.prems(2) have d: "is_digit c" and ds: "list_all is_digit s" by simp_all
  from d have v: "0 \<le> digit_val c" by (simp add: is_digit_def digit_val_def)
  with Cons.prems(1) have nn: "0 \<le> 10 * a + digit_val c" by simp
  have "(10 * a + digit_val c = 0) = (a = 0 \<and> digit_val c = 0)"
    using Cons.prems(1) v by auto
  then have "(10 * a + digit_val c = 0) = (a = 0 \<and> c = CHR ''0'')"
    by (simp add: digit_val_zero [OF d])
  with Cons.IH [OF nn ds] show ?case by auto
qed

lemma decimal_zero:
  "list_all is_digit s \<Longrightarrow> (decimal s = 0) = (set s \<subseteq> {CHR ''0''})"
  unfolding decimal_def using foldl_digits_zero [of 0 s] by simp


text \<open>The dictionary after a run of assignments.\<close>

lemma update_fresh: "k \<notin> fst ` set al \<Longrightarrow> AList.update k v al = al @ [(k, v)]"
  by (induction al) auto

lemma assign_keys:
  "fst ` set (foldl (\<lambda>wp (k, v). AList.update k v wp) wp kvs) = fst ` set wp \<union> fst ` set kvs"
proof (induction kvs arbitrary: wp)
  case Nil
  then show ?case by simp
next
  case (Cons kv kvs)
  obtain k v where kv: "kv = (k, v)" by (cases kv)
  show ?case unfolding kv by (simp add: Cons.IH AList.dom_update)
qed

lemma assign_distinct:
  "distinct (map fst wp) \<Longrightarrow>
   distinct (map fst (foldl (\<lambda>wp (k, v). AList.update k v wp) wp kvs))"
proof (induction kvs arbitrary: wp)
  case Nil
  then show ?case by simp
next
  case (Cons kv kvs)
  obtain k v where kv: "kv = (k, v)" by (cases kv)
  show ?case unfolding kv using Cons.prems by (simp add: Cons.IH AList.distinct_update)
qed

lemma assign_other:
  "k \<notin> fst ` set kvs \<Longrightarrow>
   map_of (foldl (\<lambda>wp (k, v). AList.update k v wp) wp kvs) k = map_of wp k"
proof (induction kvs arbitrary: wp)
  case Nil
  then show ?case by simp
next
  case (Cons kv kvs)
  obtain k' v where kv: "kv = (k', v)" by (cases kv)
  from Cons.prems kv have "k \<noteq> k'" and "k \<notin> fst ` set kvs" by auto
  then show ?case unfolding kv by (simp add: Cons.IH AList.update_conv')
qed

lemma assign_last_wins:
  "i < length kvs \<Longrightarrow> \<forall>j. i < j \<and> j < length kvs \<longrightarrow> fst (kvs ! j) \<noteq> fst (kvs ! i) \<Longrightarrow>
   map_of (foldl (\<lambda>wp (k, v). AList.update k v wp) wp kvs) (fst (kvs ! i)) = Some (snd (kvs ! i))"
proof (induction kvs arbitrary: wp i)
  case Nil
  then show ?case by simp
next
  case (Cons kv kvs)
  obtain k v where kv: "kv = (k, v)" by (cases kv)
  show ?case
  proof (cases i)
    case 0
    have "k \<notin> fst ` set kvs"
    proof
      assume "k \<in> fst ` set kvs"
      then obtain j where j: "j < length kvs" "fst (kvs ! j) = k"
        by (auto simp: in_set_conv_nth)
      with Cons.prems(2) [rule_format, of "Suc j"] 0 kv show False by simp
    qed
    then have "map_of (foldl (\<lambda>wp (k, v). AList.update k v wp) (AList.update k v wp) kvs) k
               = map_of (AList.update k v wp) k" by (rule assign_other)
    then show ?thesis using 0 kv by (simp add: AList.update_conv')
  next
    case (Suc i')
    from Cons.prems(1) Suc have i': "i' < length kvs" by simp
    have later: "\<forall>j. i' < j \<and> j < length kvs \<longrightarrow> fst (kvs ! j) \<noteq> fst (kvs ! i')"
    proof (intro allI impI)
      fix j assume "i' < j \<and> j < length kvs"
      with Cons.prems(2) [rule_format, of "Suc j"] Suc show "fst (kvs ! j) \<noteq> fst (kvs ! i')" by simp
    qed
    from Cons.IH [OF i' later] show ?thesis using Suc kv by simp
  qed
qed

lemma assign_fresh:
  "distinct (map fst kvs) \<Longrightarrow> fst ` set kvs \<inter> fst ` set wp = {} \<Longrightarrow>
   foldl (\<lambda>wp (k, v). AList.update k v wp) wp kvs = wp @ kvs"
proof (induction kvs arbitrary: wp)
  case Nil
  then show ?case by simp
next
  case (Cons kv kvs)
  obtain k v where kv: "kv = (k, v)" by (cases kv)
  from Cons.prems kv have fresh: "k \<notin> fst ` set wp" by auto
  then have u: "AList.update k v wp = wp @ [(k, v)]" by (rule update_fresh)
  from Cons.prems kv have d: "distinct (map fst kvs)" by simp
  from Cons.prems kv have "fst ` set kvs \<inter> fst ` set (wp @ [(k, v)]) = {}" by auto
  from Cons.IH [OF d this] show ?case unfolding kv by (simp add: u)
qed


text \<open>The loops as folds.\<close>

lemma py_int_digits:
  "s \<noteq> [] \<Longrightarrow> list_all is_digit s \<Longrightarrow> length s \<le> int_max_str_digits \<Longrightarrow>
   py_int s = Inr (decimal s)"
  by (simp add: py_int_def)

lemma py_int_long:
  "int_max_str_digits < length s \<Longrightarrow> py_int s = Inl ValueError"
  by (simp add: py_int_def)

lemma assign_days_pure:
  "\<forall>im \<in> set ims. m_group1 (snd im) \<noteq> [] \<and> list_all is_digit (m_group1 (snd im)) \<and>
                   length (m_group1 (snd im)) \<le> int_max_str_digits \<Longrightarrow>
   assign_days text ms ims wp =
     Inr (foldl (\<lambda>wp (k, v). AList.update k v wp) wp
            (map (\<lambda>im. (decimal (m_group1 (snd im)), day_content text ms (fst im) (snd im))) ims))"
proof (induction ims arbitrary: wp)
  case Nil
  then show ?case by simp
next
  case (Cons im ims)
  obtain i m where im: "im = (i, m)" by (cases im)
  from Cons.prems im have "py_int (m_group1 m) = Inr (decimal (m_group1 m))"
    by (simp add: py_int_digits)
  moreover from Cons.prems have
    "\<forall>im \<in> set ims. m_group1 (snd im) \<noteq> [] \<and> list_all is_digit (m_group1 (snd im)) \<and>
                     length (m_group1 (snd im)) \<le> int_max_str_digits" by simp
  ultimately show ?case unfolding im by (simp add: Cons.IH)
qed

lemma assign_days_raises:
  "\<exists>im \<in> set ims. int_max_str_digits < length (m_group1 (snd im)) \<Longrightarrow>
   \<forall>im \<in> set ims. m_group1 (snd im) \<noteq> [] \<and> list_all is_digit (m_group1 (snd im)) \<Longrightarrow>
   assign_days text ms ims wp = Inl ValueError"
proof (induction ims arbitrary: wp)
  case Nil
  then show ?case by simp
next
  case (Cons im ims)
  obtain i m where im: "im = (i, m)" by (cases im)
  show ?case
  proof (cases "int_max_str_digits < length (m_group1 m)")
    case True
    then have "py_int (m_group1 m) = Inl ValueError" by (rule py_int_long)
    then show ?thesis unfolding im by simp
  next
    case False
    with Cons.prems(2) im have "py_int (m_group1 m) = Inr (decimal (m_group1 m))"
      by (simp add: py_int_digits)
    moreover from Cons.prems(1) False im
    have "\<exists>im \<in> set ims. int_max_str_digits < length (m_group1 (snd im))" by auto
    moreover from Cons.prems(2)
    have "\<forall>im \<in> set ims. m_group1 (snd im) \<noteq> [] \<and> list_all is_digit (m_group1 (snd im))" by simp
    ultimately show ?thesis unfolding im by (simp add: Cons.IH)
  qed
qed

lemma enumerate_take_entries:
  assumes "n \<le> length ms"
  shows "map (\<lambda>im. (decimal (m_group1 (snd im)), day_content text ms (fst im) (snd im)))
           (enumerate 0 (take n ms)) = taken_entries text ms n"
proof (rule nth_equalityI)
  show "length (map (\<lambda>im. (decimal (m_group1 (snd im)), day_content text ms (fst im) (snd im)))
           (enumerate 0 (take n ms))) = length (taken_entries text ms n)"
    using assms by (simp add: taken_entries_def)
next
  fix i
  assume "i < length (map (\<lambda>im. (decimal (m_group1 (snd im)), day_content text ms (fst im) (snd im)))
           (enumerate 0 (take n ms)))"
  then have "i < n" using assms by simp
  then show "map (\<lambda>im. (decimal (m_group1 (snd im)), day_content text ms (fst im) (snd im)))
           (enumerate 0 (take n ms)) ! i = taken_entries text ms n ! i"
    using assms by (simp add: taken_entries_def nth_enumerate_eq)
qed

lemma snd_enumerate_take:
  "im \<in> set (enumerate 0 (take n ms)) \<Longrightarrow> snd im \<in> set (take n ms)"
proof -
  assume "im \<in> set (enumerate 0 (take n ms))"
  then have "snd im \<in> snd ` set (enumerate 0 (take n ms))" by (rule imageI)
  then have "snd im \<in> set (map snd (enumerate 0 (take n ms)))" by (simp only: set_map)
  then show "snd im \<in> set (take n ms)" by (simp only: map_snd_enumerate)
qed

lemma parse_with_entries:
  assumes "n \<le> length ms"
    and "\<forall>m \<in> set ms. m_group1 m \<noteq> [] \<and> list_all is_digit (m_group1 m)"
    and "list_all (\<lambda>m. length (m_group1 m) \<le> int_max_str_digits) (take n ms)"
  shows "parse_with text n ms =
           Inr (foldl (\<lambda>wp (k, v). AList.update k v wp) [] (taken_entries text ms n))"
proof -
  have "\<forall>im \<in> set (enumerate 0 (take n ms)).
          m_group1 (snd im) \<noteq> [] \<and> list_all is_digit (m_group1 (snd im)) \<and>
          length (m_group1 (snd im)) \<le> int_max_str_digits"
  proof
    fix im assume "im \<in> set (enumerate 0 (take n ms))"
    then have t: "snd im \<in> set (take n ms)" by (rule snd_enumerate_take)
    then have "snd im \<in> set ms" by (rule in_set_takeD)
    with assms(2) have "m_group1 (snd im) \<noteq> [] \<and> list_all is_digit (m_group1 (snd im))" by blast
    moreover from assms(3) t have "length (m_group1 (snd im)) \<le> int_max_str_digits"
      by (simp add: list_all_iff)
    ultimately show "m_group1 (snd im) \<noteq> [] \<and> list_all is_digit (m_group1 (snd im)) \<and>
          length (m_group1 (snd im)) \<le> int_max_str_digits" by simp
  qed
  then show ?thesis
    unfolding parse_with_def by (simp only: assign_days_pure enumerate_take_entries [OF assms(1)])
qed

lemma parse_with_raises:
  assumes "\<forall>m \<in> set ms. m_group1 m \<noteq> [] \<and> list_all is_digit (m_group1 m)"
    and "\<not> list_all (\<lambda>m. length (m_group1 m) \<le> int_max_str_digits) (take n ms)"
  shows "parse_with text n ms = Inl ValueError"
proof -
  from assms(2) obtain m where m: "m \<in> set (take n ms)"
    and long: "int_max_str_digits < length (m_group1 m)" by (auto simp: list_all_iff)
  from m have "m \<in> snd ` set (enumerate 0 (take n ms))"
    by (simp only: set_map [symmetric] map_snd_enumerate)
  then obtain im where im: "im \<in> set (enumerate 0 (take n ms))" and "m = snd im" by blast
  with long have e: "\<exists>im \<in> set (enumerate 0 (take n ms)). int_max_str_digits < length (m_group1 (snd im))"
    by blast
  have a: "\<forall>im \<in> set (enumerate 0 (take n ms)).
          m_group1 (snd im) \<noteq> [] \<and> list_all is_digit (m_group1 (snd im))"
  proof
    fix im assume "im \<in> set (enumerate 0 (take n ms))"
    then have "snd im \<in> set (take n ms)" by (rule snd_enumerate_take)
    then have "snd im \<in> set ms" by (rule in_set_takeD)
    with assms(1) show "m_group1 (snd im) \<noteq> [] \<and> list_all is_digit (m_group1 (snd im))" by blast
  qed
  from e a show ?thesis unfolding parse_with_def by (rule assign_days_raises)
qed

lemma try_separators_find:
  "try_separators seps text n =
     map_option (\<lambda>p. parse_with text n (finditer p text))
       (find (\<lambda>p. n \<le> length (finditer p text)) seps)"
  by (induction seps) (simp_all add: Let_def)

lemma segment_selected:
  "selected_separator text n = Some p \<Longrightarrow> segment text n = parse_with text n (finditer p text)"
  by (simp add: segment_def segment_with_def try_separators_find selected_separator_def)

lemma segment_fallback:
  "selected_separator text n = None \<Longrightarrow> segment text n = fallback text n"
  by (simp add: segment_def segment_with_def try_separators_find selected_separator_def)

lemma selected_separator_Some:
  "selected_separator text n = Some p \<Longrightarrow>
   p \<in> set possible_separators \<and> n \<le> length (finditer p text)"
  unfolding selected_separator_def by (auto simp: find_Some_iff)

text \<open>The matches of a separator.\<close>

lemma separator_shape:
  "p \<in> set possible_separators \<Longrightarrow> \<exists>r. p = Lit CHR ''D'' # r \<and> Digits \<in> set r"
  by (auto simp: possible_separators_def sep_day_colon_def sep_day_nl_def sep_day_def
      sep_DAY_colon_def sep_DAY_def)

lemma finditer_match:
  assumes "p \<in> set possible_separators" "m \<in> set (finditer p text)"
  shows "m_start m < length text \<and> \<not> isspace (text ! m_start m) \<and>
         m_group1 m \<noteq> [] \<and> list_all is_digit (m_group1 m)"
proof -
  from separator_shape [OF assms(1)] obtain r where p: "p = Lit CHR ''D'' # r"
    and d: "Digits \<in> set r" by blast
  from assms(2) have in_scan: "m \<in> set (scan (Lit CHR ''D'' # r) 0 text)"
    by (simp add: finditer_def p)
  from scan_bounds [OF in_scan] have b: "m_start m < length text" by simp
  from scan_match [OF in_scan]
  have rm: "re_match (Lit CHR ''D'' # r) (drop (m_start m) text)
              = Some (m_end m - m_start m, m_group1 m)" by simp
  from re_match_Lit_head [OF rm] have "lower (hd (drop (m_start m) text)) = lower CHR ''D''" by simp
  then have "lower (text ! m_start m) = lower CHR ''D''" using b by (simp add: hd_drop_conv_nth)
  then have "\<not> isspace (text ! m_start m)" by (rule not_isspace_D)
  moreover have "m_group1 m \<noteq> [] \<and> list_all is_digit (m_group1 m)"
    using rm d by (intro re_match_group [of "Lit CHR ''D'' # r"]) auto
  ultimately show ?thesis using b by simp
qed

lemma finditer_increasing:
  assumes "p \<in> set possible_separators" "i < j" "j < length (finditer p text)"
  shows "m_start (finditer p text ! i) < m_start (finditer p text ! j)"
proof -
  from separator_shape [OF assms(1)] obtain r where p: "p = Lit CHR ''D'' # r" by blast
  have "sorted_wrt (\<lambda>x y. m_start x < m_start y) (finditer p text)"
    unfolding finditer_def p by (rule scan_sorted)
  then show ?thesis using assms(2,3) by (rule sorted_wrt_nth_less)
qed


text \<open>Group 1 of a match is the whole run of digits after the four literals.\<close>

lemma scan_resume:
  "re_match (Lit a # r) (c # cs) = Some (l, g) \<Longrightarrow> drop (l - 1) cs = drop l (c # cs)"
  by (auto split: if_splits option.splits)

lemma lower_low:
  assumes "lower t = c" "(of_char c :: nat) < 97"
  shows "t = c"
proof -
  define k :: nat where "k = of_char t"
  have lw: "lower t = (if (65 \<le> k \<and> k \<le> 90) \<or> (192 \<le> k \<and> k \<le> 222 \<and> k \<noteq> 215)
                        then char_of (k + 32) else t)"
    by (simp only: lower_def Let_def k_def)
  show ?thesis
  proof (cases "(65 \<le> k \<and> k \<le> 90) \<or> (192 \<le> k \<and> k \<le> 222 \<and> k \<noteq> 215)")
    case True
    then have "lower t = char_of (k + 32)" by (simp only: lw if_True)
    with assms(1) have "(of_char c :: nat) = of_char (char_of (k + 32))" by simp
    then have "(of_char c :: nat) = (k + 32) mod 256" by simp
    moreover have "k + 32 < 256" using True by linarith
    ultimately have "(of_char c :: nat) = k + 32" by simp
    with assms(2) True show ?thesis by linarith
  next
    case False
    then have "lower t = t" by (simp only: lw if_False)
    with assms(1) show ?thesis by simp
  qed
qed

lemma digits_then_end:
  assumes "re_match [Digits] s = Some (l, g)"
  shows "g = takeWhile is_digit s"
proof -
  define K where "K = length (takeWhile is_digit s)"
  have K: "0 < K"
  proof (rule ccontr)
    assume "\<not> 0 < K"
    then have "re_match [Digits] s = None" by (simp add: K_def)
    with assms show False by simp
  qed
  then obtain K' where K': "K = Suc K'" by (cases K) auto
  have "rev [1 ..< Suc K] = K # rev [1 ..< K]" using K by (simp add: K')
  then have "re_match [Digits] s = Some (K, take K s)" by (simp add: K_def [symmetric])
  with assms have "g = take K s" by simp
  also have "\<dots> = take K (takeWhile is_digit s)" unfolding K_def by (rule take_takeWhile) simp
  finally show ?thesis by (simp add: K_def)
qed

lemma digits_then_literal:
  assumes "re_match [Digits, Lit c] s = Some (l, g)"
    and "(of_char (lower c) :: nat) < 97" and "\<not> is_digit (lower c)"
  shows "g = takeWhile is_digit s"
proof -
  define K where "K = length (takeWhile is_digit s)"
  from first_some_SomeD [OF assms(1) [unfolded re_match.simps(4)]]
  obtain k where k: "k \<in> set (rev [1 ..< Suc (length (takeWhile is_digit s))])"
    and m: "(case re_match [Lit c] (drop k s) of None \<Rightarrow> None
             | Some (l, g) \<Rightarrow> Some (k + l, take k s)) = Some (l, g)"
    by blast
  from k have k1: "1 \<le> k" and k2: "k \<le> K" by (auto simp: K_def)
  from m have g: "g = take k s" by (cases "re_match [Lit c] (drop k s)") auto
  from m obtain x where x: "re_match [Lit c] (drop k s) = Some x"
    by (cases "re_match [Lit c] (drop k s)") auto
  obtain l' g' where "x = (l', g')" by (cases x)
  with x have "re_match (Lit c # []) (drop k s) = Some (l', g')" by simp
  from re_match_Lit_head [OF this]
  have ne: "drop k s \<noteq> []" and lo: "lower (hd (drop k s)) = lower c" by simp_all
  from ne have ks: "k < length s" by simp
  from lo have "lower (s ! k) = lower c" using ks by (simp add: hd_drop_conv_nth)
  then have sk: "s ! k = lower c" using assms(2) by (rule lower_low)
  have "k = K"
  proof (rule ccontr)
    assume "k \<noteq> K"
    with k2 have lt: "k < length (takeWhile is_digit s)" by (simp add: K_def)
    then have "takeWhile is_digit s ! k = s ! k" by (rule takeWhile_nth)
    moreover have "takeWhile is_digit s ! k \<in> set (takeWhile is_digit s)" using lt by (rule nth_mem)
    then have "is_digit (takeWhile is_digit s ! k)" by (rule set_takeWhileD [THEN conjunct2])
    ultimately show False using sk assms(3) by simp
  qed
  then have "g = take K s" using g by simp
  also have "\<dots> = take K (takeWhile is_digit s)" unfolding K_def by (rule take_takeWhile) simp
  finally show ?thesis by (simp add: K_def)
qed

lemma after_four_literals:
  "re_match (Lit a # Lit b # Lit c # Lit d # r) s = Some (l, g) \<Longrightarrow>
   \<exists>l'. re_match r (drop 4 s) = Some (l', g)"
proof -
  assume a: "re_match (Lit a # Lit b # Lit c # Lit d # r) s = Some (l, g)"
  then obtain t1 s1 where s: "s = t1 # s1" by (cases s) auto
  with a obtain l1 where a1: "re_match (Lit b # Lit c # Lit d # r) s1 = Some (l1, g)"
    by (auto split: if_splits option.splits)
  then obtain t2 s2 where s1: "s1 = t2 # s2" by (cases s1) auto
  with a1 obtain l2 where a2: "re_match (Lit c # Lit d # r) s2 = Some (l2, g)"
    by (auto split: if_splits option.splits)
  then obtain t3 s3 where s2: "s2 = t3 # s3" by (cases s2) auto
  with a2 obtain l3 where a3: "re_match (Lit d # r) s3 = Some (l3, g)"
    by (auto split: if_splits option.splits)
  then obtain t4 s4 where s3: "s3 = t4 # s4" by (cases s3) auto
  with a3 obtain l4 where a4: "re_match r s4 = Some (l4, g)"
    by (auto split: if_splits option.splits)
  have "drop 4 s = s4" by (simp add: s s1 s2 s3)
  with a4 show ?thesis by simp
qed

lemma separator_lists:
  "sep_day_colon = Lit CHR ''D'' # Lit CHR ''a'' # Lit CHR ''y'' # Lit CHR '' '' # [Digits, Lit CHR '':'']"
  "sep_day_nl = Lit CHR ''D'' # Lit CHR ''a'' # Lit CHR ''y'' # Lit CHR '' '' # [Digits, Lit (CHR 0x0A)]"
  "sep_day = Lit CHR ''D'' # Lit CHR ''a'' # Lit CHR ''y'' # Lit CHR '' '' # [Digits]"
  "sep_DAY_colon = Lit CHR ''D'' # Lit CHR ''A'' # Lit CHR ''Y'' # Lit CHR '' '' # [Digits, Lit CHR '':'']"
  "sep_DAY = Lit CHR ''D'' # Lit CHR ''A'' # Lit CHR ''Y'' # Lit CHR '' '' # [Digits]"
  by (simp_all add: sep_day_colon_def sep_day_nl_def sep_day_def sep_DAY_colon_def sep_DAY_def)

lemma group_is_digit_run:
  assumes "p \<in> set possible_separators" "m \<in> set (finditer p text)"
  shows "m_group1 m = takeWhile is_digit (drop (m_start m + 4) text)"
proof -
  have colon1: "(of_char (lower CHR '':'') :: nat) < 97" by code_simp
  have colon2: "\<not> is_digit (lower CHR '':'')" by code_simp
  have nl1: "(of_char (lower (CHR 0x0A)) :: nat) < 97" by code_simp
  have nl2: "\<not> is_digit (lower (CHR 0x0A))" by code_simp
  from separator_shape [OF assms(1)] obtain r where p: "p = Lit CHR ''D'' # r" by blast
  from assms(2) have "m \<in> set (scan (Lit CHR ''D'' # r) 0 text)" by (simp add: finditer_def p)
  from scan_match [OF this]
  have rm: "re_match p (drop (m_start m) text) = Some (m_end m - m_start m, m_group1 m)"
    by (simp add: p)
  have dd: "drop 4 (drop (m_start m) text) = drop (m_start m + 4) text" by (simp add: add.commute)
  from assms(1) consider "p = sep_day_colon" | "p = sep_day_nl" | "p = sep_day"
    | "p = sep_DAY_colon" | "p = sep_DAY" by (auto simp: possible_separators_def)
  then have "m_group1 m = takeWhile is_digit (drop 4 (drop (m_start m) text))"
  proof cases
    case 1
    from after_four_literals [OF rm [unfolded 1 separator_lists(1)]]
    obtain l' where "re_match [Digits, Lit CHR '':''] (drop 4 (drop (m_start m) text)) = Some (l', m_group1 m)"
      by blast
    then show ?thesis using colon1 colon2 by (rule digits_then_literal)
  next
    case 2
    from after_four_literals [OF rm [unfolded 2 separator_lists(2)]]
    obtain l' where "re_match [Digits, Lit (CHR 0x0A)] (drop 4 (drop (m_start m) text)) = Some (l', m_group1 m)"
      by blast
    then show ?thesis using nl1 nl2 by (rule digits_then_literal)
  next
    case 3
    from after_four_literals [OF rm [unfolded 3 separator_lists(3)]]
    obtain l' where "re_match [Digits] (drop 4 (drop (m_start m) text)) = Some (l', m_group1 m)"
      by blast
    then show ?thesis by (rule digits_then_end)
  next
    case 4
    from after_four_literals [OF rm [unfolded 4 separator_lists(4)]]
    obtain l' where "re_match [Digits, Lit CHR '':''] (drop 4 (drop (m_start m) text)) = Some (l', m_group1 m)"
      by blast
    then show ?thesis using colon1 colon2 by (rule digits_then_literal)
  next
    case 5
    from after_four_literals [OF rm [unfolded 5 separator_lists(5)]]
    obtain l' where "re_match [Digits] (drop 4 (drop (m_start m) text)) = Some (l', m_group1 m)"
      by blast
    then show ?thesis by (rule digits_then_end)
  qed
  then show ?thesis by (simp only: dd)
qed

lemma assign_subset:
  "set (foldl (\<lambda>wp (k, v). AList.update k v wp) wp kvs) \<subseteq> set wp \<union> set kvs"
proof (induction kvs arbitrary: wp)
  case Nil
  then show ?case by simp
next
  case (Cons kv kvs)
  obtain k v where kv: "kv = (k, v)" by (cases kv)
  have "set (AList.update k v wp) \<subseteq> insert (k, v) (set wp)"
    by (induction wp) auto
  with Cons.IH [of "AList.update k v wp"] show ?case unfolding kv by auto
qed

text \<open>The content cut out for a match.\<close>

lemma slice_head:
  "a < b \<Longrightarrow> a < length xs \<Longrightarrow> slice xs a b \<noteq> [] \<and> hd (slice xs a b) = xs ! a"
  by (simp add: slice_def hd_drop_conv_nth)

lemma end_pos_after:
  assumes "p \<in> set possible_separators" "i < length (finditer p text)"
  shows "m_start (finditer p text ! i) < end_pos text (finditer p text) i \<and>
         end_pos text (finditer p text) i \<le> length text"
proof (cases "i + 1 < length (finditer p text)")
  case True
  have "finditer p text ! (i + 1) \<in> set (finditer p text)" using True by (rule nth_mem)
  with finditer_match [OF assms(1)] have "m_start (finditer p text ! (i + 1)) < length text" by blast
  moreover have "m_start (finditer p text ! i) < m_start (finditer p text ! (i + 1))"
    using assms(1) _ True by (rule finditer_increasing) simp
  ultimately show ?thesis using True by (simp add: end_pos_def)
next
  case False
  have "finditer p text ! i \<in> set (finditer p text)" using assms(2) by (rule nth_mem)
  with finditer_match [OF assms(1)] have "m_start (finditer p text ! i) < length text" by blast
  then show ?thesis using False by (simp add: end_pos_def)
qed

lemma day_content_trimmed:
  assumes "p \<in> set possible_separators" "i < length (finditer p text)"
  shows "day_content text (finditer p text) i (finditer p text ! i) \<noteq> [] \<and>
         \<not> isspace (hd (day_content text (finditer p text) i (finditer p text ! i))) \<and>
         strip (day_content text (finditer p text) i (finditer p text ! i))
           = day_content text (finditer p text) i (finditer p text ! i)"
proof -
  define ms where "ms = finditer p text"
  define sl where "sl = slice text (m_start (ms ! i)) (end_pos text ms i)"
  have "ms ! i \<in> set (finditer p text)" unfolding ms_def using assms(2) by (rule nth_mem)
  with finditer_match [OF assms(1)]
  have b: "m_start (ms ! i) < length text" and sp: "\<not> isspace (text ! m_start (ms ! i))" by blast+
  from end_pos_after [OF assms] have "m_start (ms ! i) < end_pos text ms i" by (simp add: ms_def)
  from slice_head [OF this b] have "sl \<noteq> []" and "hd sl = text ! m_start (ms ! i)"
    by (simp_all add: sl_def)
  with sp have "sl \<noteq> []" and "\<not> isspace (hd sl)" by simp_all
  from strip_keeps_head [OF this] sp \<open>hd sl = text ! m_start (ms ! i)\<close>
  have "strip sl \<noteq> []" and "\<not> isspace (hd (strip sl))" by simp_all
  moreover have "strip (strip sl) = strip sl" by (rule strip_idem)
  moreover have "day_content text ms i (ms ! i) = strip sl" by (simp add: day_content_def sl_def)
  ultimately show ?thesis unfolding ms_def [symmetric] by simp
qed

text \<open>The fallback.\<close>

lemma fallback_days_fresh:
  "distinct days \<Longrightarrow> int ` set days \<inter> fst ` set wp = {} \<Longrightarrow>
   fallback_days lines n days wp = wp @ map (\<lambda>d. (int d, fallback_content lines n d)) days"
proof (induction days arbitrary: wp)
  case Nil
  then show ?case by simp
next
  case (Cons d days)
  from Cons.prems have "int d \<notin> fst ` set wp" by auto
  then have u: "AList.update (int d) (fallback_content lines n d) wp
                  = wp @ [(int d, fallback_content lines n d)]" by (rule update_fresh)
  from Cons.prems have dd: "distinct days" by simp
  from Cons.prems
  have "int ` set days \<inter> fst ` set (wp @ [(int d, fallback_content lines n d)]) = {}" by auto
  from Cons.IH [OF dd this] show ?case by (simp add: u)
qed

lemma fallback_entries:
  "0 < n \<Longrightarrow>
   fallback text n =
     Inr (map (\<lambda>d. (int d, fallback_content (split_nl (strip text)) n d)) [1 ..< Suc n])"
  using fallback_days_fresh [of "[1 ..< Suc n]" "[]" "split_nl (strip text)" n]
  by (simp add: fallback_def Let_def)

lemma slices_concat:
  "concat (map (\<lambda>d. slice xs ((d - 1) * L) (d * L)) [1 ..< Suc m]) = take (m * L) xs"
proof (induction m)
  case 0
  then show ?case by simp
next
  case (Suc m)
  have "slice xs (m * L) (Suc m * L) = take L (drop (m * L) xs)" by (simp add: slice_def)
  moreover have "take (m * L + L) xs = take (m * L) xs @ take L (drop (m * L) xs)"
    by (rule take_add)
  ultimately show ?case using Suc.IH by (simp add: add.commute)
qed

lemma day_lines_concat:
  assumes "0 < n"
  shows "concat (map (day_lines lines n) [1 ..< Suc n]) = lines"
proof -
  obtain m where n: "n = Suc m" using assms by (cases n) auto
  define L where "L = lines_per_day lines n"
  have "map (day_lines lines n) [1 ..< Suc m] = map (\<lambda>d. slice lines ((d - 1) * L) (d * L)) [1 ..< Suc m]"
    by (rule map_cong) (auto simp: day_lines_def L_def n)
  then have front: "concat (map (day_lines lines n) [1 ..< Suc m]) = take (m * L) lines"
    by (simp only: slices_concat)
  have last: "day_lines lines n (Suc m) = drop (m * L) lines"
    by (simp add: day_lines_def L_def n slice_def)
  have "[1 ..< Suc n] = [1 ..< Suc m] @ [Suc m]" by (simp add: n)
  then show ?thesis by (simp only: map_append concat_append front) (simp add: last)
qed

lemma split_nl_nonempty: "split_nl s \<noteq> []"
  by (induction s) (auto split: list.splits)

lemma join_nl_Cons_Cons: "join_nl ((c # l) # ls) = c # join_nl (l # ls)"
  by (cases ls) simp_all

lemma join_split: "join_nl (split_nl s) = s"
proof (induction s)
  case Nil
  then show ?case by simp
next
  case (Cons c s)
  obtain l ls where sp: "split_nl s = l # ls" using split_nl_nonempty [of s] by (cases "split_nl s") auto
  show ?case
  proof (cases "c = CHR 0x0A")
    case True
    with Cons.IH sp show ?thesis by simp
  next
    case False
    with Cons.IH sp show ?thesis by (simp add: join_nl_Cons_Cons)
  qed
qed

section \<open>The two paths of the parser\<close>

lemma within_limit_Some:
  "selected_separator text n = Some p \<Longrightarrow>
   digits_within_limit text n =
     list_all (\<lambda>m. length (m_group1 m) \<le> int_max_str_digits) (take n (finditer p text))"
  by (simp add: digits_within_limit_def)

lemma within_limit_None: "selected_separator text n = None \<Longrightarrow> digits_within_limit text n"
  by (simp add: digits_within_limit_def)

lemma segment_pattern_path:
  assumes "selected_separator text n = Some p" "digits_within_limit text n"
  shows "segment text n =
           Inr (foldl (\<lambda>wp (k, v). AList.update k v wp) []
                  (taken_entries text (finditer p text) n))"
proof -
  from selected_separator_Some [OF assms(1)]
  have p: "p \<in> set possible_separators" and n: "n \<le> length (finditer p text)" by simp_all
  have g: "\<forall>m \<in> set (finditer p text). m_group1 m \<noteq> [] \<and> list_all is_digit (m_group1 m)"
    using finditer_match [OF p] by blast
  have l: "list_all (\<lambda>m. length (m_group1 m) \<le> int_max_str_digits) (take n (finditer p text))"
    using assms(2) within_limit_Some [OF assms(1)] by simp
  from n g l have "parse_with text n (finditer p text) =
           Inr (foldl (\<lambda>wp (k, v). AList.update k v wp) []
                  (taken_entries text (finditer p text) n))" by (rule parse_with_entries)
  with segment_selected [OF assms(1)] show ?thesis by simp
qed

lemma segment_pattern_raises:
  assumes "selected_separator text n = Some p" "\<not> digits_within_limit text n"
  shows "segment text n = Inl ValueError"
proof -
  from selected_separator_Some [OF assms(1)]
  have p: "p \<in> set possible_separators" by simp
  have g: "\<forall>m \<in> set (finditer p text). m_group1 m \<noteq> [] \<and> list_all is_digit (m_group1 m)"
    using finditer_match [OF p] by blast
  have l: "\<not> list_all (\<lambda>m. length (m_group1 m) \<le> int_max_str_digits) (take n (finditer p text))"
    using assms(2) within_limit_Some [OF assms(1)] by simp
  from g l have "parse_with text n (finditer p text) = Inl ValueError" by (rule parse_with_raises)
  with segment_selected [OF assms(1)] show ?thesis by simp
qed

lemma selected_None_pos:
  assumes "selected_separator text n = None"
  shows "0 < n"
proof (rule ccontr)
  assume "\<not> 0 < n"
  then have "n \<le> length (finditer sep_day_colon text)" by simp
  then have "selected_separator text n = Some sep_day_colon"
    by (simp add: selected_separator_def possible_separators_def)
  with assms show False by simp
qed

lemma segment_fallback_path:
  assumes "selected_separator text n = None"
  shows "segment text n =
           Inr (map (\<lambda>d. (int d, fallback_content (split_nl (strip text)) n d)) [1 ..< Suc n])"
  using segment_fallback [OF assms] fallback_entries [OF selected_None_pos [OF assms]] by simp

lemma segment_raises:
  assumes "\<not> digits_within_limit text n"
  shows "segment text n = Inl ValueError"
proof (cases "selected_separator text n")
  case None
  then have "digits_within_limit text n" by (rule within_limit_None)
  with assms show ?thesis by simp
next
  case (Some p)
  then show ?thesis using assms by (rule segment_pattern_raises)
qed

lemma segment_Inr_within:
  assumes "segment text n = Inr wp"
  shows "digits_within_limit text n"
proof (rule ccontr)
  assume "\<not> digits_within_limit text n"
  then have "segment text n = Inl ValueError" by (rule segment_raises)
  with assms show False by simp
qed

lemma taken_entry:
  assumes "p \<in> set possible_separators" "n \<le> length (finditer p text)"
    and "kc \<in> set (taken_entries text (finditer p text) n)"
  shows "0 \<le> fst kc \<and> snd kc \<noteq> [] \<and> \<not> isspace (hd (snd kc)) \<and> strip (snd kc) = snd kc \<and>
         (\<exists>i<n. fst kc = decimal (takeWhile is_digit (drop (m_start (finditer p text ! i) + 4) text)) \<and>
                 (fst kc = 0) = (set (takeWhile is_digit (drop (m_start (finditer p text ! i) + 4) text))
                                  \<subseteq> {CHR ''0''}) \<and>
                 snd kc = day_content text (finditer p text) i (finditer p text ! i))"
proof -
  from assms(3) obtain i where i: "i < n"
    and kc: "kc = (decimal (m_group1 (finditer p text ! i)),
                   day_content text (finditer p text) i (finditer p text ! i))"
    by (auto simp: taken_entries_def)
  from i assms(2) have il: "i < length (finditer p text)" by simp
  then have mem: "finditer p text ! i \<in> set (finditer p text)" by (rule nth_mem)
  with finditer_match [OF assms(1)] have d: "list_all is_digit (m_group1 (finditer p text ! i))"
    by blast
  then have nn: "0 \<le> decimal (m_group1 (finditer p text ! i))" by (rule decimal_nonneg)
  from group_is_digit_run [OF assms(1) mem]
  have g: "m_group1 (finditer p text ! i)
             = takeWhile is_digit (drop (m_start (finditer p text ! i) + 4) text)" .
  from decimal_zero [OF d]
  have z: "(decimal (m_group1 (finditer p text ! i)) = 0)
             = (set (m_group1 (finditer p text ! i)) \<subseteq> {CHR ''0''})" .
  have "fst kc = decimal (takeWhile is_digit (drop (m_start (finditer p text ! i) + 4) text)) \<and>
        (fst kc = 0) = (set (takeWhile is_digit (drop (m_start (finditer p text ! i) + 4) text))
                          \<subseteq> {CHR ''0''}) \<and>
        snd kc = day_content text (finditer p text) i (finditer p text ! i)"
    using z unfolding kc fst_conv snd_conv g [symmetric] by simp
  with i have "\<exists>i<n. fst kc = decimal (takeWhile is_digit (drop (m_start (finditer p text ! i) + 4) text)) \<and>
                 (fst kc = 0) = (set (takeWhile is_digit (drop (m_start (finditer p text ! i) + 4) text))
                                  \<subseteq> {CHR ''0''}) \<and>
                 snd kc = day_content text (finditer p text) i (finditer p text ! i)" by blast
  with day_content_trimmed [OF assms(1) il] nn show ?thesis unfolding kc by simp
qed

lemma fallback_content_head:
  "fallback_content lines n d \<noteq> [] \<and> \<not> isspace (hd (fallback_content lines n d)) \<and>
   strip (fallback_content lines n d) \<noteq> []"
proof -
  have h: "fallback_content lines n d \<noteq> []" "hd (fallback_content lines n d) = CHR ''D''"
    by (simp_all add: fallback_content_def)
  moreover have "\<not> isspace CHR ''D''" by code_simp
  ultimately have sp: "\<not> isspace (hd (fallback_content lines n d))" by simp
  from strip_keeps_head [OF h(1) sp] h(1) sp show ?thesis by simp
qed

lemma fallback_content_untrimmed:
  assumes "join_nl (day_lines lines n d) = []"
  shows "strip (fallback_content lines n d) \<noteq> fallback_content lines n d"
proof
  assume eq: "strip (fallback_content lines n d) = fallback_content lines n d"
  have ne: "strip (fallback_content lines n d) \<noteq> []"
    using fallback_content_head [of lines n d] by simp
  from strip_ends [OF ne] have "\<not> isspace (last (fallback_content lines n d))" by (simp add: eq)
  moreover have "last (fallback_content lines n d) = CHR 0x0A"
    using assms by (simp add: fallback_content_def)
  moreover have "isspace (CHR 0x0A)" by code_simp
  ultimately show False by simp
qed

section \<open>The order of the separators\<close>

lemma selected_by_index:
  assumes "k < length seps"
    and "\<forall>j<k. length (finditer (seps ! j) text) < n"
    and "n \<le> length (finditer (seps ! k) text)"
  shows "find (\<lambda>p. n \<le> length (finditer p text)) seps = Some (seps ! k)"
proof -
  have "\<forall>j<k. \<not> n \<le> length (finditer (seps ! j) text)" using assms(2) by auto
  with assms(1,3) show ?thesis unfolding find_Some_iff by blast
qed

text \<open>
  C2. The separators are tried in the order of the list \<open>possible_separators\<close>
  (\<open>Day N:\<close>, \<open>Day N\<close> newline, \<open>Day N\<close>, \<open>DAY N:\<close>, \<open>DAY N\<close>): when the
  separator at index \<open>k\<close> has at least \<open>n\<close> matches and every earlier one has fewer, the
  result is the segmentation by separator \<open>k\<close>, whatever the later ones would match. In
  particular, as soon as the colon-suffixed separator has at least \<open>n\<close> matches, its
  segmentation is returned.
\<close>

theorem separators_first_sufficient:
  assumes "k < length possible_separators"
    and "\<forall>j<k. length (finditer (possible_separators ! j) text) < n"
    and "n \<le> length (finditer (possible_separators ! k) text)"
  shows "segment text n = parse_with text n (finditer (possible_separators ! k) text) \<and>
         possible_separators = [sep_day_colon, sep_day_nl, sep_day, sep_DAY_colon, sep_DAY] \<and>
         (n \<le> length (finditer sep_day_colon text) \<longrightarrow>
            segment text n = parse_with text n (finditer sep_day_colon text))"
proof -
  have "selected_separator text n = Some (possible_separators ! k)"
    unfolding selected_separator_def using assms by (rule selected_by_index)
  then have "segment text n = parse_with text n (finditer (possible_separators ! k) text)"
    by (rule segment_selected)
  moreover have "n \<le> length (finditer sep_day_colon text) \<longrightarrow>
            segment text n = parse_with text n (finditer sep_day_colon text)"
    by (simp add: segment_def segment_with_def possible_separators_def)
  ultimately show ?thesis by (simp add: possible_separators_def)
qed

theorem separators_first_sufficient_witness:
  "2 < length possible_separators \<and>
   length (finditer (possible_separators ! 0) ''Day 1 a Day 2: b'') < 2 \<and>
   length (finditer (possible_separators ! 1) ''Day 1 a Day 2: b'') < 2 \<and>
   2 \<le> length (finditer (possible_separators ! 2) ''Day 1 a Day 2: b'') \<and>
   segment ''Day 1 a Day 2: b'' 2
     = parse_with ''Day 1 a Day 2: b'' 2 (finditer (possible_separators ! 2) ''Day 1 a Day 2: b'') \<and>
   segment ''Day 1 a Day 2: b'' 2 = Inr [(1, ''Day 1 a''), (2, ''Day 2: b'')]"
proof -
  have h1: "2 < length possible_separators" by (simp add: possible_separators_def)
  have a0: "length (finditer (possible_separators ! 0) ''Day 1 a Day 2: b'') < 2" by code_simp
  have a1: "length (finditer (possible_separators ! 1) ''Day 1 a Day 2: b'') < 2" by code_simp
  have h2: "\<forall>j<2. length (finditer (possible_separators ! j) ''Day 1 a Day 2: b'') < 2"
    using a0 a1 by (auto simp: less_2_cases_iff)
  have h3: "2 \<le> length (finditer (possible_separators ! 2) ''Day 1 a Day 2: b'')" by code_simp
  have v: "segment ''Day 1 a Day 2: b'' 2 = Inr [(1, ''Day 1 a''), (2, ''Day 2: b'')]" by code_simp
  from separators_first_sufficient [OF h1 h2 h3] h1 a0 a1 h3 v show ?thesis by blast
qed

text \<open>
  C10. The two upper-case separators are dead. Matching ignores case, so \<open>DAY N:\<close> has
  exactly the matches of \<open>Day N:\<close> and \<open>DAY N\<close> exactly those of \<open>Day N\<close>; the loop
  never stops at an upper-case separator, and the segmentation with the first three
  separators alone equals the one with all five, for every text and every \<open>n\<close>.
\<close>

theorem upper_case_separators_dead:
  "finditer sep_DAY_colon text = finditer sep_day_colon text \<and>
   finditer sep_DAY text = finditer sep_day text \<and>
   selected_separator text n \<noteq> Some sep_DAY_colon \<and>
   selected_separator text n \<noteq> Some sep_DAY \<and>
   segment_with [sep_day_colon, sep_day_nl, sep_day] text n = segment text n"
proof -
  have ne: "sep_day_colon \<noteq> sep_DAY_colon" "sep_day_nl \<noteq> sep_DAY_colon"
    "sep_day \<noteq> sep_DAY_colon" "sep_day_colon \<noteq> sep_DAY" "sep_day_nl \<noteq> sep_DAY"
    "sep_day \<noteq> sep_DAY" "sep_DAY_colon \<noteq> sep_DAY"
    by (simp_all add: sep_day_colon_def sep_day_nl_def sep_day_def sep_DAY_colon_def sep_DAY_def)
  have s1: "selected_separator text n \<noteq> Some sep_DAY_colon"
    using ne by (simp add: selected_separator_def possible_separators_def finditer_DAY_colon)
  have s2: "selected_separator text n \<noteq> Some sep_DAY"
    using ne by (simp add: selected_separator_def possible_separators_def finditer_DAY)
  have s3: "segment_with [sep_day_colon, sep_day_nl, sep_day] text n = segment text n"
    by (simp add: segment_def segment_with_def possible_separators_def Let_def
        finditer_DAY_colon finditer_DAY)
  from finditer_DAY_colon finditer_DAY s1 s2 s3 show ?thesis by blast
qed

section \<open>The fallback split\<close>

lemma day_lines_ranges:
  assumes "1 \<le> d" "d \<le> n"
  shows "day_lines lines n d =
           (if d < n then take (lines_per_day lines n) (drop ((d - 1) * lines_per_day lines n) lines)
            else drop ((n - 1) * lines_per_day lines n) lines)"
proof (cases "d < n")
  case True
  obtain d' where d: "d = Suc d'" using assms(1) by (cases d) auto
  show ?thesis using True by (simp add: day_lines_def slice_def d)
next
  case False
  with assms(2) have "d = n" by simp
  then show ?thesis by (simp add: day_lines_def slice_def)
qed

text \<open>
  C4, as the code has it. When no separator has \<open>n\<close> matches, the text is first stripped
  of leading and trailing whitespace and then split into lines; with
  \<open>L = max 1 (length lines div n)\<close>, day \<open>d\<close> of \<open>1..n\<close> gets the lines of index
  \<open>(d - 1) * L\<close> up to \<open>d * L\<close> (those that exist), except the last day, which gets all
  lines from \<open>(n - 1) * L\<close> to the end. The content of day \<open>d\<close> is \<open>Day d:\<close>, a newline
  and these lines joined by newlines; the keys are 1 to \<open>n\<close> in this order.
\<close>

theorem fallback_split:
  assumes "selected_separator text n = None" and "1 \<le> d" and "d \<le> n"
  shows "\<exists>wp lines L. segment text n = Inr wp \<and>
           lines = split_nl (strip text) \<and> L = max 1 (length lines div n) \<and>
           map fst wp = map int [1 ..< Suc n] \<and>
           map_of wp (int d) =
             Some (''Day '' @ str_nat d @ '':'' @ [CHR 0x0A] @
                   join_nl (if d < n then take L (drop ((d - 1) * L) lines)
                            else drop ((n - 1) * L) lines))"
proof -
  let ?lines = "split_nl (strip text)"
  let ?L = "max 1 (length ?lines div n)"
  let ?wp = "map (\<lambda>d. (int d, fallback_content ?lines n d)) [1 ..< Suc n]"
  have r: "segment text n = Inr ?wp" using assms(1) by (rule segment_fallback_path)
  have k: "map fst ?wp = map int [1 ..< Suc n]" by (simp add: comp_def)
  then have dist: "distinct (map fst ?wp)" by (simp add: distinct_map inj_on_def)
  have "1 \<le> d \<and> d < Suc n" using assms(2,3) by linarith
  then have "d \<in> set [1 ..< Suc n]" by (simp only: set_upt atLeastLessThan_iff)
  then have "(int d, fallback_content ?lines n d) \<in> set ?wp" unfolding set_map by (rule imageI)
  with dist have m: "map_of ?wp (int d) = Some (fallback_content ?lines n d)"
    by (rule map_of_is_SomeI)
  have c: "fallback_content ?lines n d =
      ''Day '' @ str_nat d @ '':'' @ [CHR 0x0A] @
        join_nl (if d < n then take ?L (drop ((d - 1) * ?L) ?lines) else drop ((n - 1) * ?L) ?lines)"
    unfolding fallback_content_def day_lines_ranges [OF assms(2,3)]
    by (simp add: lines_per_day_def)
  have "segment text n = Inr ?wp \<and>
           ?lines = split_nl (strip text) \<and> ?L = max 1 (length ?lines div n) \<and>
           map fst ?wp = map int [1 ..< Suc n] \<and>
           map_of ?wp (int d) =
             Some (''Day '' @ str_nat d @ '':'' @ [CHR 0x0A] @
                   join_nl (if d < n then take ?L (drop ((d - 1) * ?L) ?lines)
                            else drop ((n - 1) * ?L) ?lines))"
    using r k m c by simp
  then show ?thesis by (intro exI)
qed

theorem fallback_split_witness:
  "selected_separator (''a'' @ [CHR 0x0A] @ ''b'' @ [CHR 0x0A] @ ''c'') 2 = None \<and>
   (1::nat) \<le> 1 \<and> (1::nat) \<le> 2 \<and>
   (\<exists>wp lines L. segment (''a'' @ [CHR 0x0A] @ ''b'' @ [CHR 0x0A] @ ''c'') 2 = Inr wp \<and>
           lines = split_nl (strip (''a'' @ [CHR 0x0A] @ ''b'' @ [CHR 0x0A] @ ''c'')) \<and>
           L = max 1 (length lines div 2) \<and>
           map fst wp = map int [1 ..< Suc 2] \<and>
           map_of wp (int 1) =
             Some (''Day '' @ str_nat 1 @ '':'' @ [CHR 0x0A] @
                   join_nl (if 1 < (2::nat) then take L (drop ((1 - 1) * L) lines)
                            else drop ((2 - 1) * L) lines))) \<and>
   segment (''a'' @ [CHR 0x0A] @ ''b'' @ [CHR 0x0A] @ ''c'') 2
     = Inr [(1, ''Day 1:'' @ [CHR 0x0A] @ ''a''),
            (2, ''Day 2:'' @ [CHR 0x0A] @ ''b'' @ [CHR 0x0A] @ ''c'')]"
proof -
  have h1: "selected_separator (''a'' @ [CHR 0x0A] @ ''b'' @ [CHR 0x0A] @ ''c'') 2 = None"
    by code_simp
  have h2: "(1::nat) \<le> 1" by simp
  have h3: "(1::nat) \<le> 2" by simp
  have v: "segment (''a'' @ [CHR 0x0A] @ ''b'' @ [CHR 0x0A] @ ''c'') 2
     = Inr [(1, ''Day 1:'' @ [CHR 0x0A] @ ''a''),
            (2, ''Day 2:'' @ [CHR 0x0A] @ ''b'' @ [CHR 0x0A] @ ''c'')]"
    by code_simp
  note c = fallback_split [OF h1 h2 h3]
  show ?thesis by (intro conjI h1 h2 h3 c v)
qed

theorem fallback_whole_text_counterexample:
  "selected_separator ([CHR 0x0A] @ ''a'') 1 = None \<and>
   segment ([CHR 0x0A] @ ''a'') 1 = Inr [(1, ''Day 1:'' @ [CHR 0x0A] @ ''a'')] \<and>
   split_nl ([CHR 0x0A] @ ''a'') = ['''', ''a''] \<and>
   fallback_content (split_nl ([CHR 0x0A] @ ''a'')) 1 1 = ''Day 1:'' @ [CHR 0x0A, CHR 0x0A] @ ''a'' \<and>
   map_of [(1::int, ''Day 1:'' @ [CHR 0x0A] @ ''a'')] 1
     \<noteq> Some (fallback_content (split_nl ([CHR 0x0A] @ ''a'')) 1 1)"
  by code_simp

text \<open>
  C5, as the code has it. On the fallback path the bodies of the days partition the lines
  of the stripped text: the body of day \<open>d\<close> is the join of \<open>day_lines d\<close>, and the
  concatenation of \<open>day_lines 1\<close>, ..., \<open>day_lines n\<close> is the list of lines of the
  stripped text, each once and in order, whose join is the stripped text itself.
  Whitespace around the whole text, blank lines at its ends included, is not reproduced.
\<close>

theorem fallback_partition:
  assumes "selected_separator text n = None"
  shows "segment text n =
           Inr (map (\<lambda>d. (int d, ''Day '' @ str_nat d @ '':'' @ [CHR 0x0A] @
                             join_nl (day_lines (split_nl (strip text)) n d))) [1 ..< Suc n]) \<and>
         concat (map (day_lines (split_nl (strip text)) n) [1 ..< Suc n]) = split_nl (strip text) \<and>
         join_nl (split_nl (strip text)) = strip text"
proof -
  have "segment text n =
          Inr (map (\<lambda>d. (int d, fallback_content (split_nl (strip text)) n d)) [1 ..< Suc n])"
    using assms by (rule segment_fallback_path)
  then have "segment text n =
           Inr (map (\<lambda>d. (int d, ''Day '' @ str_nat d @ '':'' @ [CHR 0x0A] @
                             join_nl (day_lines (split_nl (strip text)) n d))) [1 ..< Suc n])"
    by (simp add: fallback_content_def)
  moreover have "concat (map (day_lines (split_nl (strip text)) n) [1 ..< Suc n])
                   = split_nl (strip text)"
    using selected_None_pos [OF assms] by (rule day_lines_concat)
  moreover have "join_nl (split_nl (strip text)) = strip text" by (rule join_split)
  ultimately show ?thesis by (intro conjI)
qed

theorem fallback_partition_witness:
  "selected_separator (''  a'' @ [CHR 0x0A] @ ''b'' @ [CHR 0x0A] @ ''c'' @ [CHR 0x0A]) 2 = None \<and>
   segment (''  a'' @ [CHR 0x0A] @ ''b'' @ [CHR 0x0A] @ ''c'' @ [CHR 0x0A]) 2 =
     Inr (map (\<lambda>d. (int d, ''Day '' @ str_nat d @ '':'' @ [CHR 0x0A] @
            join_nl (day_lines (split_nl (strip (''  a'' @ [CHR 0x0A] @ ''b'' @ [CHR 0x0A] @ ''c'' @ [CHR 0x0A]))) 2 d)))
          [1 ..< Suc 2]) \<and>
   concat (map (day_lines (split_nl (strip (''  a'' @ [CHR 0x0A] @ ''b'' @ [CHR 0x0A] @ ''c'' @ [CHR 0x0A]))) 2)
             [1 ..< Suc 2])
     = split_nl (strip (''  a'' @ [CHR 0x0A] @ ''b'' @ [CHR 0x0A] @ ''c'' @ [CHR 0x0A])) \<and>
   join_nl (split_nl (strip (''  a'' @ [CHR 0x0A] @ ''b'' @ [CHR 0x0A] @ ''c'' @ [CHR 0x0A])))
     = strip (''  a'' @ [CHR 0x0A] @ ''b'' @ [CHR 0x0A] @ ''c'' @ [CHR 0x0A]) \<and>
   split_nl (strip (''  a'' @ [CHR 0x0A] @ ''b'' @ [CHR 0x0A] @ ''c'' @ [CHR 0x0A])) = [''a'', ''b'', ''c'']"
proof -
  have h: "selected_separator (''  a'' @ [CHR 0x0A] @ ''b'' @ [CHR 0x0A] @ ''c'' @ [CHR 0x0A]) 2 = None"
    by code_simp
  have v: "split_nl (strip (''  a'' @ [CHR 0x0A] @ ''b'' @ [CHR 0x0A] @ ''c'' @ [CHR 0x0A]))
             = [''a'', ''b'', ''c'']" by code_simp
  note c = fallback_partition [OF h]
  show ?thesis by (intro conjI h v c [THEN conjunct1] c [THEN conjunct2, THEN conjunct1]
                     c [THEN conjunct2, THEN conjunct2])
qed

theorem fallback_lines_lost_counterexample:
  "selected_separator (''a'' @ [CHR 0x0A]) 1 = None \<and>
   segment (''a'' @ [CHR 0x0A]) 1 = Inr [(1, ''Day 1:'' @ [CHR 0x0A] @ ''a'')] \<and>
   split_nl (''a'' @ [CHR 0x0A]) = [''a'', ''''] \<and>
   concat (map (day_lines (split_nl (strip (''a'' @ [CHR 0x0A]))) 1) [1 ..< Suc 1]) = [''a''] \<and>
   concat (map (day_lines (split_nl (strip (''a'' @ [CHR 0x0A]))) 1) [1 ..< Suc 1])
     \<noteq> split_nl (''a'' @ [CHR 0x0A])"
  by code_simp

section \<open>A heading with too many digits\<close>

lemma digit_one: "is_digit CHR ''1''"
  by code_simp

lemma colon_no_digit: "\<not> is_digit CHR '':''"
  by code_simp

lemma re_match_long_digits:
  assumes "0 < k"
  shows "re_match [Digits, Lit CHR '':''] (replicate k CHR ''1'' @ '':'')
           = Some (k + 1, replicate k CHR ''1'')"
proof -
  let ?ds = "replicate k CHR ''1''"
  have "takeWhile is_digit (?ds @ '':'') = ?ds @ takeWhile is_digit '':''"
    by (rule takeWhile_append2) (simp add: digit_one)
  then have tw: "takeWhile is_digit (?ds @ '':'') = ?ds" using colon_no_digit by simp
  obtain k' where k': "k = Suc k'" using assms by (cases k) auto
  have r: "rev [1 ..< Suc k] = k # rev [1 ..< k]" by (simp add: k')
  have d: "drop k (?ds @ '':'') = '':''" by simp
  have t: "take k (?ds @ '':'') = ?ds" by simp
  have m: "re_match [Lit CHR '':''] '':'' = Some (1, [])" by simp
  have "re_match [Digits, Lit CHR '':''] (?ds @ '':'')
          = first_some
              (\<lambda>j. case re_match [Lit CHR '':''] (drop j (?ds @ '':'')) of None \<Rightarrow> None
                   | Some (l, g) \<Rightarrow> Some (j + l, take j (?ds @ '':'')))
              (k # rev [1 ..< k])"
    by (simp only: re_match.simps(4) tw length_replicate r)
  also have "\<dots> = Some (k + 1, ?ds)" by (simp only: first_some.simps d t m option.case prod.case)
  finally show ?thesis .
qed

lemma re_match_long_heading:
  assumes "0 < k"
  shows "re_match sep_day_colon (''Day '' @ replicate k CHR ''1'' @ '':'')
           = Some (k + 5, replicate k CHR ''1'')"
  using re_match_long_digits [OF assms] by (simp add: separator_lists(1))

lemma finditer_long_heading:
  assumes "0 < k"
  shows "finditer sep_day_colon (''Day '' @ replicate k CHR ''1'' @ '':'')
           = [\<lparr>m_start = 0, m_end = k + 5, m_group1 = replicate k CHR ''1''\<rparr>]"
proof -
  let ?cs = "''ay '' @ replicate k CHR ''1'' @ '':''"
  have tx: "''Day '' @ replicate k CHR ''1'' @ '':'' = CHR ''D'' # ?cs" by simp
  have rm: "re_match sep_day_colon (CHR ''D'' # ?cs) = Some (k + 5, replicate k CHR ''1'')"
    using re_match_long_heading [OF assms] by simp
  have "drop (k + 5 - 1) ?cs = []" by simp
  then have "scan sep_day_colon 0 (CHR ''D'' # ?cs)
          = [\<lparr>m_start = 0, m_end = k + 5, m_group1 = replicate k CHR ''1''\<rparr>]"
    by (simp only: scan.simps rm option.case prod.case) simp
  then show ?thesis by (simp only: finditer_def tx)
qed

lemma segment_long_heading:
  assumes "int_max_str_digits < k"
  shows "segment (''Day '' @ replicate k CHR ''1'' @ '':'') 1 = Inl ValueError"
proof -
  let ?text = "''Day '' @ replicate k CHR ''1'' @ '':''"
  from assms have k: "0 < k" by simp
  have f: "finditer sep_day_colon ?text
             = [\<lparr>m_start = 0, m_end = k + 5, m_group1 = replicate k CHR ''1''\<rparr>]"
    using k by (rule finditer_long_heading)
  have "1 \<le> length (finditer sep_day_colon ?text)" by (simp only: f) simp
  then have s: "selected_separator ?text 1 = Some sep_day_colon"
    by (simp only: selected_separator_def possible_separators_def find.simps if_True)
  have "take 1 (finditer sep_day_colon ?text) = finditer sep_day_colon ?text"
    by (simp only: f) simp
  then have "\<not> digits_within_limit ?text 1"
    using assms by (simp only: within_limit_Some [OF s] f) simp
  then show ?thesis by (rule segment_raises)
qed

section \<open>The outcome and the shape of the result\<close>

lemma segment_entries:
  assumes "digits_within_limit text n"
  shows "\<exists>wp. segment text n = Inr wp \<and> distinct (map fst wp) \<and>
     (\<forall>kc \<in> set wp. 0 \<le> fst kc \<and> snd kc \<noteq> [] \<and> \<not> isspace (hd (snd kc)) \<and>
        strip (snd kc) \<noteq> [] \<and>
        (\<forall>p. selected_separator text n = Some p \<longrightarrow>
           strip (snd kc) = snd kc \<and>
           (\<exists>i<n. fst kc = decimal (takeWhile is_digit (drop (m_start (finditer p text ! i) + 4) text)) \<and>
                 (fst kc = 0) = (set (takeWhile is_digit (drop (m_start (finditer p text ! i) + 4) text))
                                  \<subseteq> {CHR ''0''}) \<and>
                 snd kc = day_content text (finditer p text) i (finditer p text ! i))) \<and>
        (selected_separator text n = None \<longrightarrow>
           (\<exists>d. 1 \<le> d \<and> d \<le> n \<and>
                kc = (int d, fallback_content (split_nl (strip text)) n d))))"
proof (cases "selected_separator text n")
  case None
  define wp where "wp = map (\<lambda>d. (int d, fallback_content (split_nl (strip text)) n d)) [1 ..< Suc n]"
  have r: "segment text n = Inr wp" unfolding wp_def using None by (rule segment_fallback_path)
  have "map fst wp = map int [1 ..< Suc n]" by (simp add: wp_def comp_def)
  then have d: "distinct (map fst wp)" by (simp add: distinct_map inj_on_def)
  have "\<forall>kc \<in> set wp. 0 \<le> fst kc \<and> snd kc \<noteq> [] \<and> \<not> isspace (hd (snd kc)) \<and>
        strip (snd kc) \<noteq> [] \<and>
        (\<exists>d. 1 \<le> d \<and> d \<le> n \<and> kc = (int d, fallback_content (split_nl (strip text)) n d))"
  proof
    fix kc assume "kc \<in> set wp"
    then obtain d where dd: "1 \<le> d" "d \<le> n"
      and kc: "kc = (int d, fallback_content (split_nl (strip text)) n d)"
      by (auto simp: wp_def)
    from fallback_content_head [of "split_nl (strip text)" n d] dd kc
    show "0 \<le> fst kc \<and> snd kc \<noteq> [] \<and> \<not> isspace (hd (snd kc)) \<and>
        strip (snd kc) \<noteq> [] \<and>
        (\<exists>d. 1 \<le> d \<and> d \<le> n \<and> kc = (int d, fallback_content (split_nl (strip text)) n d))"
      by auto
  qed
  with r d None show ?thesis by auto
next
  case (Some p)
  define wp where "wp = foldl (\<lambda>wp (k, v). AList.update k v wp) []
                  (taken_entries text (finditer p text) n)"
  have r: "segment text n = Inr wp" unfolding wp_def using Some assms by (rule segment_pattern_path)
  from selected_separator_Some [OF Some]
  have p: "p \<in> set possible_separators" and n: "n \<le> length (finditer p text)" by simp_all
  have d: "distinct (map fst wp)" unfolding wp_def by (rule assign_distinct) simp
  have sub: "set wp \<subseteq> set (taken_entries text (finditer p text) n)"
    unfolding wp_def using assign_subset [of "[]"] by simp
  have "\<forall>kc \<in> set wp. 0 \<le> fst kc \<and> snd kc \<noteq> [] \<and> \<not> isspace (hd (snd kc)) \<and>
        strip (snd kc) = snd kc \<and>
        (\<exists>i<n. fst kc = decimal (takeWhile is_digit (drop (m_start (finditer p text ! i) + 4) text)) \<and>
                 (fst kc = 0) = (set (takeWhile is_digit (drop (m_start (finditer p text ! i) + 4) text))
                                  \<subseteq> {CHR ''0''}) \<and>
                 snd kc = day_content text (finditer p text) i (finditer p text ! i))"
    using taken_entry [OF p n] sub by blast
  with r d Some show ?thesis by auto
qed

lemma segment_nonempty:
  assumes "0 < n" "segment text n = Inr wp"
  shows "wp \<noteq> []"
proof (cases "selected_separator text n")
  case None
  from segment_fallback_path [OF None] assms show ?thesis by auto
next
  case (Some p)
  have "fst ` set (foldl (\<lambda>wp (k, v). AList.update k v wp) []
                  (taken_entries text (finditer p text) n))
        = fst ` set (taken_entries text (finditer p text) n)"
    by (simp add: assign_keys)
  moreover have "taken_entries text (finditer p text) n \<noteq> []"
    using assms(1) by (simp add: taken_entries_def)
  ultimately have "foldl (\<lambda>wp (k, v). AList.update k v wp) []
                  (taken_entries text (finditer p text) n) \<noteq> []" by auto
  with segment_pattern_path [OF Some segment_Inr_within [OF assms(2)]] assms(2)
  show ?thesis by simp
qed

lemma pattern_keys:
  assumes "selected_separator text n = Some p" "segment text n = Inr wp"
  shows "fst ` set wp = (\<lambda>i. decimal (m_group1 (finditer p text ! i))) ` {..<n} \<and>
         distinct (map fst wp)"
proof -
  from segment_pattern_path [OF assms(1) segment_Inr_within [OF assms(2)]] assms(2)
  have wp: "wp = foldl (\<lambda>wp (k, v). AList.update k v wp) []
                   (taken_entries text (finditer p text) n)" by simp
  have "fst ` set wp = fst ` set (taken_entries text (finditer p text) n)"
    unfolding wp by (simp add: assign_keys)
  also have "\<dots> = (\<lambda>i. decimal (m_group1 (finditer p text ! i))) ` {..<n}"
    by (simp add: taken_entries_def image_image lessThan_atLeast0)
  finally have "fst ` set wp = (\<lambda>i. decimal (m_group1 (finditer p text ! i))) ` {..<n}" .
  moreover have "distinct (map fst wp)" unfolding wp by (rule assign_distinct) simp
  ultimately show ?thesis by simp
qed

lemma pattern_entry:
  assumes "selected_separator text n = Some p" "segment text n = Inr wp" "i < n"
    and "\<forall>j. i < j \<and> j < n \<longrightarrow>
           decimal (m_group1 (finditer p text ! j)) \<noteq> decimal (m_group1 (finditer p text ! i))"
  shows "map_of wp (decimal (m_group1 (finditer p text ! i)))
           = Some (day_content text (finditer p text) i (finditer p text ! i))"
proof -
  define kvs where "kvs = taken_entries text (finditer p text) n"
  from segment_pattern_path [OF assms(1) segment_Inr_within [OF assms(2)]] assms(2)
  have wp: "wp = foldl (\<lambda>wp (k, v). AList.update k v wp) [] kvs" by (simp add: kvs_def)
  have len: "length kvs = n" by (simp add: kvs_def taken_entries_def)
  have nth: "\<And>j. j < n \<Longrightarrow> kvs ! j = (decimal (m_group1 (finditer p text ! j)),
                 day_content text (finditer p text) j (finditer p text ! j))"
    by (simp add: kvs_def taken_entries_def)
  have i: "i < length kvs" using assms(3) len by simp
  have later: "\<forall>j. i < j \<and> j < length kvs \<longrightarrow> fst (kvs ! j) \<noteq> fst (kvs ! i)"
    using assms(3,4) len nth by simp
  from assign_last_wins [OF i later, of "[]"] show ?thesis
    unfolding wp using nth [OF assms(3)] by simp
qed

lemma segment_not_zero_division: "segment text n \<noteq> Inl ZeroDivisionError"
proof (cases "digits_within_limit text n")
  case True
  from segment_entries [OF True] show ?thesis by auto
next
  case False
  then have "segment text n = Inl ValueError" by (rule segment_raises)
  then show ?thesis by simp
qed

lemma segment_count:
  assumes "segment text n = Inr wp"
  shows "distinct (map fst wp) \<and> length wp \<le> n \<and>
         (case selected_separator text n of
            None \<Rightarrow> map fst wp = map int [1 ..< Suc n] \<and> length wp = n
          | Some p \<Rightarrow>
              fst ` set wp = (\<lambda>i. decimal (m_group1 (finditer p text ! i))) ` {..<n} \<and>
              length wp = card ((\<lambda>i. decimal (m_group1 (finditer p text ! i))) ` {..<n}))"
proof (cases "selected_separator text n")
  case None
  from segment_fallback_path [OF None] assms
  have wp: "wp = map (\<lambda>d. (int d, fallback_content (split_nl (strip text)) n d)) [1 ..< Suc n]"
    by simp
  have k: "map fst wp = map int [1 ..< Suc n]" by (simp add: wp comp_def)
  then have d: "distinct (map fst wp)" by (simp add: distinct_map inj_on_def)
  have l: "length wp = n" by (simp add: wp)
  from k d l None show ?thesis by simp
next
  case (Some p)
  from pattern_keys [OF Some assms]
  have k: "fst ` set wp = (\<lambda>i. decimal (m_group1 (finditer p text ! i))) ` {..<n}"
    and d: "distinct (map fst wp)" by simp_all
  have "length wp = length (map fst wp)" by simp
  also have "\<dots> = card (set (map fst wp))" using d by (simp only: distinct_card)
  also have "\<dots> = card ((\<lambda>i. decimal (m_group1 (finditer p text ! i))) ` {..<n})"
    using k by simp
  finally have l: "length wp = card ((\<lambda>i. decimal (m_group1 (finditer p text ! i))) ` {..<n})" .
  have "card ((\<lambda>i. decimal (m_group1 (finditer p text ! i))) ` {..<n}) \<le> card {..<n}"
    by (rule card_image_le) simp
  then have u: "length wp \<le> n" using l by simp
  from d u k l Some show ?thesis by simp
qed

text \<open>
  C7, as the code has it. The parser terminates on every text and every positive \<open>n\<close>,
  but it is not free of errors: \<open>int\<close> raises \<open>ValueError\<close> when one of the first \<open>n\<close>
  headings of the selected separator has more than 4300 digits. That is the only error:
  when no such heading exists (always so on the fallback path) the parser returns a
  dictionary, and it never raises \<open>ZeroDivisionError\<close>. A returned dictionary is not
  empty, has at most \<open>n\<close> entries, none with an empty content, and its keys are the
  numbers written in the first \<open>n\<close> headings, or 1 to \<open>n\<close> on the fallback path.
\<close>

theorem segment_outcome:
  assumes "0 < n"
  shows "(digits_within_limit text n \<longrightarrow>
            (\<exists>wp. segment text n = Inr wp \<and> wp \<noteq> [] \<and> length wp \<le> n \<and>
                  distinct (map fst wp) \<and> (\<forall>kc \<in> set wp. snd kc \<noteq> []) \<and>
                  (case selected_separator text n of
                     None \<Rightarrow> map fst wp = map int [1 ..< Suc n]
                   | Some p \<Rightarrow>
                       fst ` set wp
                         = (\<lambda>i. decimal (m_group1 (finditer p text ! i))) ` {..<n}))) \<and>
         (\<not> digits_within_limit text n \<longrightarrow> segment text n = Inl ValueError) \<and>
         segment text n \<noteq> Inl ZeroDivisionError"
proof (intro conjI impI)
  assume w: "digits_within_limit text n"
  from segment_entries [OF w] obtain wp where r: "segment text n = Inr wp"
    and e: "\<forall>kc \<in> set wp. snd kc \<noteq> []" by blast
  from assms r have ne: "wp \<noteq> []" by (rule segment_nonempty)
  note sc = segment_count [OF r]
  from sc have d: "distinct (map fst wp)" by (rule conjunct1)
  from sc have l: "length wp \<le> n" by (rule conjunct2 [THEN conjunct1])
  have c: "case selected_separator text n of
                     None \<Rightarrow> map fst wp = map int [1 ..< Suc n]
                   | Some p \<Rightarrow>
                       fst ` set wp
                         = (\<lambda>i. decimal (m_group1 (finditer p text ! i))) ` {..<n}"
  proof (cases "selected_separator text n")
    case None
    with sc show ?thesis by (simp only: option.case)
  next
    case (Some p)
    with sc show ?thesis by (simp only: option.case)
  qed
  from r ne l d e c
  show "\<exists>wp. segment text n = Inr wp \<and> wp \<noteq> [] \<and> length wp \<le> n \<and>
                  distinct (map fst wp) \<and> (\<forall>kc \<in> set wp. snd kc \<noteq> []) \<and>
                  (case selected_separator text n of
                     None \<Rightarrow> map fst wp = map int [1 ..< Suc n]
                   | Some p \<Rightarrow>
                       fst ` set wp
                         = (\<lambda>i. decimal (m_group1 (finditer p text ! i))) ` {..<n})"
    by (intro exI conjI)
next
  assume "\<not> digits_within_limit text n"
  then show "segment text n = Inl ValueError" by (rule segment_raises)
next
  show "segment text n \<noteq> Inl ZeroDivisionError" by (rule segment_not_zero_division)
qed

theorem segment_outcome_witness:
  "(0::nat) < 2 \<and> digits_within_limit ''Day 2: x Day 1: y'' 2 \<and>
   (\<exists>wp. segment ''Day 2: x Day 1: y'' 2 = Inr wp \<and> wp \<noteq> [] \<and> length wp \<le> 2 \<and>
                  distinct (map fst wp) \<and> (\<forall>kc \<in> set wp. snd kc \<noteq> []) \<and>
                  (case selected_separator ''Day 2: x Day 1: y'' 2 of
                     None \<Rightarrow> map fst wp = map int [1 ..< Suc 2]
                   | Some p \<Rightarrow>
                       fst ` set wp
                         = (\<lambda>i. decimal (m_group1 (finditer p ''Day 2: x Day 1: y'' ! i))) ` {..<2})) \<and>
   segment ''Day 2: x Day 1: y'' 2 \<noteq> Inl ZeroDivisionError \<and>
   segment ''Day 2: x Day 1: y'' 2 = Inr [(2, ''Day 2: x''), (1, ''Day 1: y'')]"
proof -
  have h0: "(0::nat) < 2" by simp
  have h1: "digits_within_limit ''Day 2: x Day 1: y'' 2" by code_simp
  have v: "segment ''Day 2: x Day 1: y'' 2 = Inr [(2, ''Day 2: x''), (1, ''Day 1: y'')]"
    by code_simp
  note c = segment_outcome [OF h0, of "''Day 2: x Day 1: y''"]
  show ?thesis
    by (intro conjI h0 h1 v c [THEN conjunct1, THEN mp, OF h1] c [THEN conjunct2, THEN conjunct2])
qed

theorem segment_raises_counterexample:
  "(0::nat) < 1 \<and> segment (''Day '' @ replicate 4301 CHR ''1'' @ '':'') 1 = Inl ValueError"
proof (rule conjI)
  show "(0::nat) < 1" by simp
next
  have "int_max_str_digits < 4301" by (simp add: int_max_str_digits_def)
  then show "segment (''Day '' @ replicate 4301 CHR ''1'' @ '':'') 1 = Inl ValueError"
    by (rule segment_long_heading)
qed

text \<open>
  C8, as the code has it. Whenever the parser returns a dictionary (it does unless a
  taken heading has more than 4300 digits), every content string contains a character
  that is not whitespace and begins with one; on the pattern path it is stripped, that
  is, equal to its own \<open>strip\<close>. On the fallback path the content of day \<open>d\<close> is the line
  \<open>Day d:\<close>, a newline and the lines of the day joined by newlines, and nothing strips
  it: when the joined lines are empty it ends with the newline and differs from its own
  \<open>strip\<close>.
\<close>

theorem contents_nonblank:
  assumes "digits_within_limit text n"
  shows "\<exists>wp. segment text n = Inr wp \<and> (0 < n \<longrightarrow> wp \<noteq> []) \<and>
     (\<forall>kc \<in> set wp. snd kc \<noteq> [] \<and> strip (snd kc) \<noteq> [] \<and> \<not> isspace (hd (snd kc)) \<and>
        (selected_separator text n \<noteq> None \<longrightarrow> strip (snd kc) = snd kc) \<and>
        (\<forall>p. selected_separator text n = Some p \<longrightarrow>
           (\<exists>i<n. snd kc = day_content text (finditer p text) i (finditer p text ! i))) \<and>
        (selected_separator text n = None \<longrightarrow>
           (\<exists>d. 1 \<le> d \<and> d \<le> n \<and> fst kc = int d \<and>
                snd kc = ''Day '' @ str_nat d @ '':'' @ [CHR 0x0A] @
                           join_nl (day_lines (split_nl (strip text)) n d) \<and>
                (join_nl (day_lines (split_nl (strip text)) n d) = [] \<longrightarrow>
                   strip (snd kc) \<noteq> snd kc))))"
proof -
  from segment_entries [OF assms] obtain wp where r: "segment text n = Inr wp"
    and e: "\<forall>kc \<in> set wp. 0 \<le> fst kc \<and> snd kc \<noteq> [] \<and> \<not> isspace (hd (snd kc)) \<and>
        strip (snd kc) \<noteq> [] \<and>
        (\<forall>p. selected_separator text n = Some p \<longrightarrow>
           strip (snd kc) = snd kc \<and>
           (\<exists>i<n. fst kc = decimal (takeWhile is_digit (drop (m_start (finditer p text ! i) + 4) text)) \<and>
                 (fst kc = 0) = (set (takeWhile is_digit (drop (m_start (finditer p text ! i) + 4) text))
                                  \<subseteq> {CHR ''0''}) \<and>
                 snd kc = day_content text (finditer p text) i (finditer p text ! i))) \<and>
        (selected_separator text n = None \<longrightarrow>
           (\<exists>d. 1 \<le> d \<and> d \<le> n \<and>
                kc = (int d, fallback_content (split_nl (strip text)) n d)))"
    by blast
  have "\<forall>kc \<in> set wp. snd kc \<noteq> [] \<and> strip (snd kc) \<noteq> [] \<and> \<not> isspace (hd (snd kc)) \<and>
        (selected_separator text n \<noteq> None \<longrightarrow> strip (snd kc) = snd kc) \<and>
        (\<forall>p. selected_separator text n = Some p \<longrightarrow>
           (\<exists>i<n. snd kc = day_content text (finditer p text) i (finditer p text ! i))) \<and>
        (selected_separator text n = None \<longrightarrow>
           (\<exists>d. 1 \<le> d \<and> d \<le> n \<and> fst kc = int d \<and>
                snd kc = ''Day '' @ str_nat d @ '':'' @ [CHR 0x0A] @
                           join_nl (day_lines (split_nl (strip text)) n d) \<and>
                (join_nl (day_lines (split_nl (strip text)) n d) = [] \<longrightarrow>
                   strip (snd kc) \<noteq> snd kc)))"
  proof
    fix kc assume kc: "kc \<in> set wp"
    from e kc have a: "snd kc \<noteq> []" "strip (snd kc) \<noteq> []" "\<not> isspace (hd (snd kc))" by blast+
    have b: "selected_separator text n \<noteq> None \<longrightarrow> strip (snd kc) = snd kc"
      using e kc by auto
    have c: "selected_separator text n = None \<longrightarrow>
           (\<exists>d. 1 \<le> d \<and> d \<le> n \<and> fst kc = int d \<and>
                snd kc = ''Day '' @ str_nat d @ '':'' @ [CHR 0x0A] @
                           join_nl (day_lines (split_nl (strip text)) n d) \<and>
                (join_nl (day_lines (split_nl (strip text)) n d) = [] \<longrightarrow>
                   strip (snd kc) \<noteq> snd kc))"
    proof
      assume "selected_separator text n = None"
      with e kc obtain d where d: "1 \<le> d" "d \<le> n"
        and k: "kc = (int d, fallback_content (split_nl (strip text)) n d)" by blast
      have f: "snd kc = ''Day '' @ str_nat d @ '':'' @ [CHR 0x0A] @
                           join_nl (day_lines (split_nl (strip text)) n d)"
        by (simp add: k fallback_content_def)
      have u: "join_nl (day_lines (split_nl (strip text)) n d) = [] \<longrightarrow>
                   strip (snd kc) \<noteq> snd kc"
        using fallback_content_untrimmed [of "split_nl (strip text)" n d] by (simp add: k)
      from d k f u show "\<exists>d. 1 \<le> d \<and> d \<le> n \<and> fst kc = int d \<and>
                snd kc = ''Day '' @ str_nat d @ '':'' @ [CHR 0x0A] @
                           join_nl (day_lines (split_nl (strip text)) n d) \<and>
                (join_nl (day_lines (split_nl (strip text)) n d) = [] \<longrightarrow>
                   strip (snd kc) \<noteq> snd kc)"
        by (intro exI [of _ d] conjI) simp_all
    qed
    have o: "\<forall>p. selected_separator text n = Some p \<longrightarrow>
           (\<exists>i<n. snd kc = day_content text (finditer p text) i (finditer p text ! i))"
      using e kc by blast
    from a b o c show "snd kc \<noteq> [] \<and> strip (snd kc) \<noteq> [] \<and> \<not> isspace (hd (snd kc)) \<and>
        (selected_separator text n \<noteq> None \<longrightarrow> strip (snd kc) = snd kc) \<and>
        (\<forall>p. selected_separator text n = Some p \<longrightarrow>
           (\<exists>i<n. snd kc = day_content text (finditer p text) i (finditer p text ! i))) \<and>
        (selected_separator text n = None \<longrightarrow>
           (\<exists>d. 1 \<le> d \<and> d \<le> n \<and> fst kc = int d \<and>
                snd kc = ''Day '' @ str_nat d @ '':'' @ [CHR 0x0A] @
                           join_nl (day_lines (split_nl (strip text)) n d) \<and>
                (join_nl (day_lines (split_nl (strip text)) n d) = [] \<longrightarrow>
                   strip (snd kc) \<noteq> snd kc)))"
      by (intro conjI)
  qed
  moreover have "0 < n \<longrightarrow> wp \<noteq> []" using segment_nonempty [OF _ r] by blast
  ultimately show ?thesis using r by (intro exI conjI)
qed

theorem contents_nonblank_witness:
  "digits_within_limit ''  Day 1 a   Day 2: b  '' 2 \<and>
   segment ''  Day 1 a   Day 2: b  '' 2 = Inr [(1, ''Day 1 a''), (2, ''Day 2: b'')] \<and>
   selected_separator ''  Day 1 a   Day 2: b  '' 2 \<noteq> None \<and>
   strip ''Day 1 a'' = ''Day 1 a'' \<and> strip ''Day 2: b'' = ''Day 2: b'' \<and>
   \<not> isspace (hd ''Day 1 a'')"
proof -
  have h: "digits_within_limit ''  Day 1 a   Day 2: b  '' 2" by code_simp
  have v: "segment ''  Day 1 a   Day 2: b  '' 2 = Inr [(1, ''Day 1 a''), (2, ''Day 2: b'')]"
    by code_simp
  have s: "selected_separator ''  Day 1 a   Day 2: b  '' 2 \<noteq> None" by code_simp
  from contents_nonblank [OF h] obtain wp
    where w: "segment ''  Day 1 a   Day 2: b  '' 2 = Inr wp"
      and b: "\<forall>kc \<in> set wp. snd kc \<noteq> [] \<and> strip (snd kc) \<noteq> [] \<and> \<not> isspace (hd (snd kc)) \<and>
                (selected_separator ''  Day 1 a   Day 2: b  '' 2 \<noteq> None \<longrightarrow>
                   strip (snd kc) = snd kc)"
    by blast
  from w v have wp: "wp = [(1, ''Day 1 a''), (2, ''Day 2: b'')]" by simp
  have m1: "(1, ''Day 1 a'') \<in> set wp" and m2: "(2, ''Day 2: b'') \<in> set wp"
    by (simp_all add: wp)
  from b m1 s have c1: "strip (snd (1::int, ''Day 1 a'')) = snd (1::int, ''Day 1 a'')"
    and c3: "\<not> isspace (hd (snd (1::int, ''Day 1 a'')))" by blast+
  from b m2 s have c2: "strip (snd (2::int, ''Day 2: b'')) = snd (2::int, ''Day 2: b'')" by blast
  from c1 have a1: "strip ''Day 1 a'' = ''Day 1 a''" by (simp only: snd_conv)
  from c2 have a2: "strip ''Day 2: b'' = ''Day 2: b''" by (simp only: snd_conv)
  have "snd (1::int, ''Day 1 a'') = ''Day 1 a''" by (rule snd_conv)
  with c3 have a3: "\<not> isspace (hd ''Day 1 a'')" by (rule subst [rotated])
  show ?thesis by (intro conjI h v s a1 a2 a3)
qed

theorem contents_trimmed_counterexample:
  "segment [] 1 = Inr [(1, ''Day 1:'' @ [CHR 0x0A])] \<and>
   selected_separator [] 1 = None \<and>
   strip (''Day 1:'' @ [CHR 0x0A]) \<noteq> ''Day 1:'' @ [CHR 0x0A]"
  by code_simp

text \<open>
  C9, as the code has it. Whenever the parser returns a dictionary (it does unless a
  taken heading has more than 4300 digits), every key is a non-negative integer. On the
  pattern path it is the decimal value of the run of digits of one of the first \<open>n\<close>
  headings, and it is 0 exactly when that run consists of zeros only, as in \<open>Day 0\<close>; on
  the fallback path the keys lie between 1 and \<open>n\<close>.
\<close>

theorem keys_nonnegative:
  assumes "digits_within_limit text n"
  shows "\<exists>wp. segment text n = Inr wp \<and> (0 < n \<longrightarrow> wp \<noteq> []) \<and>
     (\<forall>kc \<in> set wp. 0 \<le> fst kc \<and>
        (selected_separator text n = None \<longrightarrow> 1 \<le> fst kc \<and> fst kc \<le> int n) \<and>
        (\<forall>p. selected_separator text n = Some p \<longrightarrow>
           (\<exists>i<n. fst kc = decimal (takeWhile is_digit
                                       (drop (m_start (finditer p text ! i) + 4) text)) \<and>
                  (fst kc = 0) = (set (takeWhile is_digit
                                         (drop (m_start (finditer p text ! i) + 4) text))
                                    \<subseteq> {CHR ''0''}))))"
proof -
  from segment_entries [OF assms] obtain wp where r: "segment text n = Inr wp"
    and e: "\<forall>kc \<in> set wp. 0 \<le> fst kc \<and> snd kc \<noteq> [] \<and> \<not> isspace (hd (snd kc)) \<and>
        strip (snd kc) \<noteq> [] \<and>
        (\<forall>p. selected_separator text n = Some p \<longrightarrow>
           strip (snd kc) = snd kc \<and>
           (\<exists>i<n. fst kc = decimal (takeWhile is_digit (drop (m_start (finditer p text ! i) + 4) text)) \<and>
                 (fst kc = 0) = (set (takeWhile is_digit (drop (m_start (finditer p text ! i) + 4) text))
                                  \<subseteq> {CHR ''0''}) \<and>
                 snd kc = day_content text (finditer p text) i (finditer p text ! i))) \<and>
        (selected_separator text n = None \<longrightarrow>
           (\<exists>d. 1 \<le> d \<and> d \<le> n \<and>
                kc = (int d, fallback_content (split_nl (strip text)) n d)))"
    by blast
  have "\<forall>kc \<in> set wp. 0 \<le> fst kc \<and>
        (selected_separator text n = None \<longrightarrow> 1 \<le> fst kc \<and> fst kc \<le> int n) \<and>
        (\<forall>p. selected_separator text n = Some p \<longrightarrow>
           (\<exists>i<n. fst kc = decimal (takeWhile is_digit
                                       (drop (m_start (finditer p text ! i) + 4) text)) \<and>
                  (fst kc = 0) = (set (takeWhile is_digit
                                         (drop (m_start (finditer p text ! i) + 4) text))
                                    \<subseteq> {CHR ''0''})))"
  proof
    fix kc assume kc: "kc \<in> set wp"
    from e kc have a: "0 \<le> fst kc" by blast
    have b: "selected_separator text n = None \<longrightarrow> 1 \<le> fst kc \<and> fst kc \<le> int n"
    proof
      assume "selected_separator text n = None"
      with e kc obtain d where "1 \<le> d" "d \<le> n"
        "kc = (int d, fallback_content (split_nl (strip text)) n d)" by blast
      then show "1 \<le> fst kc \<and> fst kc \<le> int n" by simp
    qed
    have c: "\<forall>p. selected_separator text n = Some p \<longrightarrow>
           (\<exists>i<n. fst kc = decimal (takeWhile is_digit
                                       (drop (m_start (finditer p text ! i) + 4) text)) \<and>
                  (fst kc = 0) = (set (takeWhile is_digit
                                         (drop (m_start (finditer p text ! i) + 4) text))
                                    \<subseteq> {CHR ''0''}))"
      using e kc by blast
    from a b c show "0 \<le> fst kc \<and>
        (selected_separator text n = None \<longrightarrow> 1 \<le> fst kc \<and> fst kc \<le> int n) \<and>
        (\<forall>p. selected_separator text n = Some p \<longrightarrow>
           (\<exists>i<n. fst kc = decimal (takeWhile is_digit
                                       (drop (m_start (finditer p text ! i) + 4) text)) \<and>
                  (fst kc = 0) = (set (takeWhile is_digit
                                         (drop (m_start (finditer p text ! i) + 4) text))
                                    \<subseteq> {CHR ''0''})))"
      by (intro conjI)
  qed
  moreover have "0 < n \<longrightarrow> wp \<noteq> []" using segment_nonempty [OF _ r] by blast
  ultimately show ?thesis using r by (intro exI conjI)
qed

theorem keys_nonnegative_witness:
  "digits_within_limit ''no headings'' 2 \<and>
   segment ''no headings'' 2
     = Inr [(1, ''Day 1:'' @ [CHR 0x0A] @ ''no headings''), (2, ''Day 2:'' @ [CHR 0x0A])] \<and>
   selected_separator ''no headings'' 2 = None \<and>
   (0::int) \<le> 1 \<and> (1::int) \<le> 1 \<and> (1::int) \<le> int 2 \<and>
   (0::int) \<le> 2 \<and> (1::int) \<le> 2 \<and> (2::int) \<le> int 2"
proof -
  have h: "digits_within_limit ''no headings'' 2" by code_simp
  have v: "segment ''no headings'' 2
     = Inr [(1, ''Day 1:'' @ [CHR 0x0A] @ ''no headings''), (2, ''Day 2:'' @ [CHR 0x0A])]"
    by code_simp
  have s: "selected_separator ''no headings'' 2 = None" by code_simp
  from keys_nonnegative [OF h] obtain wp
    where w: "segment ''no headings'' 2 = Inr wp"
      and b: "\<forall>kc \<in> set wp. 0 \<le> fst kc \<and>
                (selected_separator ''no headings'' 2 = None \<longrightarrow>
                   1 \<le> fst kc \<and> fst kc \<le> int 2)"
    by blast
  from w v have wp: "wp = [(1, ''Day 1:'' @ [CHR 0x0A] @ ''no headings''), (2, ''Day 2:'' @ [CHR 0x0A])]"
    by simp
  have m1: "(1, ''Day 1:'' @ [CHR 0x0A] @ ''no headings'') \<in> set wp"
    and m2: "(2, ''Day 2:'' @ [CHR 0x0A]) \<in> set wp" by (simp_all add: wp)
  from b m1 s have "0 \<le> fst (1::int, ''Day 1:'' @ [CHR 0x0A] @ ''no headings'') \<and>
      1 \<le> fst (1::int, ''Day 1:'' @ [CHR 0x0A] @ ''no headings'') \<and>
      fst (1::int, ''Day 1:'' @ [CHR 0x0A] @ ''no headings'') \<le> int 2" by blast
  then have k1: "(0::int) \<le> 1 \<and> (1::int) \<le> 1 \<and> (1::int) \<le> int 2" by (simp only: fst_conv)
  from b m2 s have "0 \<le> fst (2::int, ''Day 2:'' @ [CHR 0x0A]) \<and>
      1 \<le> fst (2::int, ''Day 2:'' @ [CHR 0x0A]) \<and>
      fst (2::int, ''Day 2:'' @ [CHR 0x0A]) \<le> int 2" by blast
  then have k2: "(0::int) \<le> 2 \<and> (1::int) \<le> 2 \<and> (2::int) \<le> int 2" by (simp only: fst_conv)
  from h v s k1 k2 show ?thesis by (intro conjI) (elim conjE, assumption)+
qed

theorem keys_positive_counterexample:
  "segment ''Day 0: rest'' 1 = Inr [(0, ''Day 0: rest'')] \<and>
   \<not> (1 \<le> fst (0::int, ''Day 0: rest''))"
  by code_simp

section \<open>The entries of the pattern path\<close>

text \<open>
  C1, as the code has it. For positive \<open>n\<close>, whenever the parser returns a dictionary (it
  does unless a taken heading has more than 4300 digits), the dictionary has at least one
  and at most \<open>n\<close> entries. On the fallback path it has exactly \<open>n\<close> entries, under the
  keys 1 to \<open>n\<close>. On the pattern path it has one entry for each distinct day number
  written in the first \<open>n\<close> matches: a repeated number is assigned again under the same
  key, so the count is \<open>n\<close> only when these numbers are pairwise distinct.
\<close>

theorem entry_count:
  assumes "0 < n" and "digits_within_limit text n"
  shows "\<exists>wp. segment text n = Inr wp \<and> distinct (map fst wp) \<and>
           1 \<le> length wp \<and> length wp \<le> n \<and>
           (case selected_separator text n of
              None \<Rightarrow> map fst wp = map int [1 ..< Suc n] \<and> length wp = n
            | Some p \<Rightarrow>
                length wp = card ((\<lambda>i. decimal (m_group1 (finditer p text ! i))) ` {..<n}))"
proof -
  from segment_entries [OF assms(2)] obtain wp where r: "segment text n = Inr wp" by blast
  note sc = segment_count [OF r]
  from sc have d: "distinct (map fst wp)" by (rule conjunct1)
  from sc have u: "length wp \<le> n" by (rule conjunct2 [THEN conjunct1])
  from assms(1) r have "wp \<noteq> []" by (rule segment_nonempty)
  then have lo: "1 \<le> length wp" by (cases wp) simp_all
  have c: "case selected_separator text n of
              None \<Rightarrow> map fst wp = map int [1 ..< Suc n] \<and> length wp = n
            | Some p \<Rightarrow>
                length wp = card ((\<lambda>i. decimal (m_group1 (finditer p text ! i))) ` {..<n})"
  proof (cases "selected_separator text n")
    case None
    with sc show ?thesis by (simp only: option.case)
  next
    case (Some p)
    with sc show ?thesis by (simp only: option.case)
  qed
  from r d lo u c show ?thesis by (intro exI conjI)
qed

theorem entry_count_witness:
  "(0::nat) < 2 \<and> digits_within_limit ''Day 1: a Day 1: b'' 2 \<and>
   (\<exists>wp. segment ''Day 1: a Day 1: b'' 2 = Inr wp \<and> distinct (map fst wp) \<and>
           1 \<le> length wp \<and> length wp \<le> 2 \<and>
           (case selected_separator ''Day 1: a Day 1: b'' 2 of
              None \<Rightarrow> map fst wp = map int [1 ..< Suc 2] \<and> length wp = 2
            | Some p \<Rightarrow>
                length wp = card ((\<lambda>i. decimal (m_group1 (finditer p ''Day 1: a Day 1: b'' ! i))) ` {..<2}))) \<and>
   segment ''Day 3: a Day 1: b'' 2 = Inr [(3, ''Day 3: a''), (1, ''Day 1: b'')]"
proof -
  have h: "(0::nat) < 2" by simp
  have w: "digits_within_limit ''Day 1: a Day 1: b'' 2" by code_simp
  have v: "segment ''Day 3: a Day 1: b'' 2 = Inr [(3, ''Day 3: a''), (1, ''Day 1: b'')]"
    by code_simp
  note c = entry_count [OF h w]
  show ?thesis by (intro conjI h w c v)
qed

theorem entry_count_counterexample:
  "segment ''Day 1: a Day 1: b'' 2 = Inr [(1, ''Day 1: b'')] \<and>
   length [(1::int, ''Day 1: b'')] \<noteq> 2"
  by code_simp

text \<open>
  C6, as the code has it. On the pattern path, whenever the parser returns a dictionary
  (it does unless a taken heading has more than 4300 digits), its keys are exactly the
  numbers written in the first \<open>n\<close> headings (the value of the whole run of digits that
  follows \<open>Day\<close> and the space), whatever their order in the text. The entry under a
  number holds the content of the last of these headings that carries it: a heading that
  repeats an earlier number among the first \<open>n\<close> overwrites the earlier content. When no
  later heading among the first \<open>n\<close> repeats the number of heading \<open>i\<close>, the entry under
  that number is the content of heading \<open>i\<close>.
\<close>

theorem keys_from_headings:
  assumes "selected_separator text n = Some p" and "digits_within_limit text n"
  shows "\<exists>wp. segment text n = Inr wp \<and>
           fst ` set wp = (\<lambda>i. decimal (m_group1 (finditer p text ! i))) ` {..<n} \<and>
           (\<forall>i<n. m_group1 (finditer p text ! i)
                    = takeWhile is_digit (drop (m_start (finditer p text ! i) + 4) text)) \<and>
           (\<forall>i<n. (\<forall>j. i < j \<and> j < n \<longrightarrow>
                      decimal (m_group1 (finditer p text ! j))
                        \<noteq> decimal (m_group1 (finditer p text ! i))) \<longrightarrow>
                  map_of wp (decimal (m_group1 (finditer p text ! i)))
                    = Some (day_content text (finditer p text) i (finditer p text ! i)))"
proof -
  from segment_entries [OF assms(2)] obtain wp where r: "segment text n = Inr wp" by blast
  from selected_separator_Some [OF assms(1)]
  have p: "p \<in> set possible_separators" and n: "n \<le> length (finditer p text)" by simp_all
  from pattern_keys [OF assms(1) r]
  have k: "fst ` set wp = (\<lambda>i. decimal (m_group1 (finditer p text ! i))) ` {..<n}" by simp
  have g: "\<forall>i<n. m_group1 (finditer p text ! i)
                    = takeWhile is_digit (drop (m_start (finditer p text ! i) + 4) text)"
  proof (intro allI impI)
    fix i assume "i < n"
    with n have "finditer p text ! i \<in> set (finditer p text)" by simp
    with p show "m_group1 (finditer p text ! i)
                    = takeWhile is_digit (drop (m_start (finditer p text ! i) + 4) text)"
      by (rule group_is_digit_run)
  qed
  have e: "\<forall>i<n. (\<forall>j. i < j \<and> j < n \<longrightarrow>
                      decimal (m_group1 (finditer p text ! j))
                        \<noteq> decimal (m_group1 (finditer p text ! i))) \<longrightarrow>
                  map_of wp (decimal (m_group1 (finditer p text ! i)))
                    = Some (day_content text (finditer p text) i (finditer p text ! i))"
    using pattern_entry [OF assms(1) r] by blast
  from r k g e show ?thesis by (intro exI conjI)
qed

theorem keys_from_headings_witness:
  "selected_separator ''Day 2: x Day 1: y'' 2 = Some sep_day_colon \<and>
   digits_within_limit ''Day 2: x Day 1: y'' 2 \<and>
   (\<exists>wp. segment ''Day 2: x Day 1: y'' 2 = Inr wp \<and>
           fst ` set wp
             = (\<lambda>i. decimal (m_group1 (finditer sep_day_colon ''Day 2: x Day 1: y'' ! i))) ` {..<2} \<and>
           (\<forall>i<2. m_group1 (finditer sep_day_colon ''Day 2: x Day 1: y'' ! i)
                    = takeWhile is_digit
                        (drop (m_start (finditer sep_day_colon ''Day 2: x Day 1: y'' ! i) + 4)
                           ''Day 2: x Day 1: y'')) \<and>
           (\<forall>i<2. (\<forall>j. i < j \<and> j < 2 \<longrightarrow>
                      decimal (m_group1 (finditer sep_day_colon ''Day 2: x Day 1: y'' ! j))
                        \<noteq> decimal (m_group1 (finditer sep_day_colon ''Day 2: x Day 1: y'' ! i))) \<longrightarrow>
                  map_of wp (decimal (m_group1 (finditer sep_day_colon ''Day 2: x Day 1: y'' ! i)))
                    = Some (day_content ''Day 2: x Day 1: y''
                              (finditer sep_day_colon ''Day 2: x Day 1: y'') i
                              (finditer sep_day_colon ''Day 2: x Day 1: y'' ! i)))) \<and>
   segment ''Day 2: x Day 1: y'' 2 = Inr [(2, ''Day 2: x''), (1, ''Day 1: y'')]"
proof -
  have h: "selected_separator ''Day 2: x Day 1: y'' 2 = Some sep_day_colon" by code_simp
  have w: "digits_within_limit ''Day 2: x Day 1: y'' 2" by code_simp
  have v: "segment ''Day 2: x Day 1: y'' 2 = Inr [(2, ''Day 2: x''), (1, ''Day 1: y'')]"
    by code_simp
  note c = keys_from_headings [OF h w]
  show ?thesis by (intro conjI h w c v)
qed

theorem first_heading_overwritten_counterexample:
  "segment ''Day 2: a Day 2: b'' 2 = Inr [(2, ''Day 2: b'')] \<and>
   day_content ''Day 2: a Day 2: b'' (finditer sep_day_colon ''Day 2: a Day 2: b'') 0
     (finditer sep_day_colon ''Day 2: a Day 2: b'' ! 0) = ''Day 2: a'' \<and>
   map_of [(2::int, ''Day 2: b'')] 2 \<noteq> Some ''Day 2: a''"
  by code_simp

text \<open>
  C3, as the code has it. When a separator qualifies, the first \<open>n\<close> of its matches are
  taken in order of appearance and, unless one of them has more than 4300 digits, a
  dictionary is returned. The content of taken match \<open>i\<close> is the stripped text from its
  start offset up to the start offset of match \<open>i + 1\<close> of the whole list of matches,
  taken or not, and up to the end of the text only when match \<open>i\<close> is the last match of
  all. So the last taken segment stops at the next heading when the separator has more
  than \<open>n\<close> matches. (The entry is read under the number of heading \<open>i\<close>, provided no
  later taken heading repeats that number.)
\<close>

theorem segment_extent:
  assumes "selected_separator text n = Some p" and "digits_within_limit text n" and "i < n"
    and "\<forall>j. i < j \<and> j < n \<longrightarrow>
           decimal (m_group1 (finditer p text ! j)) \<noteq> decimal (m_group1 (finditer p text ! i))"
  shows "\<exists>wp e. segment text n = Inr wp \<and> n \<le> length (finditer p text) \<and>
           e = (if i + 1 < length (finditer p text)
                then m_start (finditer p text ! (i + 1)) else length text) \<and>
           m_start (finditer p text ! i) < e \<and> e \<le> length text \<and>
           map_of wp (decimal (m_group1 (finditer p text ! i)))
             = Some (strip (take (e - m_start (finditer p text ! i))
                              (drop (m_start (finditer p text ! i)) text)))"
proof -
  from segment_entries [OF assms(2)] obtain wp where r: "segment text n = Inr wp" by blast
  from selected_separator_Some [OF assms(1)]
  have p: "p \<in> set possible_separators" and n: "n \<le> length (finditer p text)" by simp_all
  from assms(3) n have il: "i < length (finditer p text)" by simp
  let ?e = "end_pos text (finditer p text) i"
  have e: "?e = (if i + 1 < length (finditer p text)
                then m_start (finditer p text ! (i + 1)) else length text)"
    by (simp add: end_pos_def)
  from end_pos_after [OF p il]
  have b1: "m_start (finditer p text ! i) < ?e" and b2: "?e \<le> length text" by simp_all
  from pattern_entry [OF assms(1) r assms(3,4)]
  have m: "map_of wp (decimal (m_group1 (finditer p text ! i)))
          = Some (strip (take (?e - m_start (finditer p text ! i))
                           (drop (m_start (finditer p text ! i)) text)))"
    by (simp add: day_content_def slice_def)
  from r n e b1 b2 m show ?thesis by (intro exI conjI)
qed

theorem segment_extent_witness:
  "selected_separator ''Day 1: a Day 2: b Day 3: c'' 2 = Some sep_day_colon \<and>
   digits_within_limit ''Day 1: a Day 2: b Day 3: c'' 2 \<and> (1::nat) < 2 \<and>
   (\<exists>wp e. segment ''Day 1: a Day 2: b Day 3: c'' 2 = Inr wp \<and>
           2 \<le> length (finditer sep_day_colon ''Day 1: a Day 2: b Day 3: c'') \<and>
           e = (if 1 + 1 < length (finditer sep_day_colon ''Day 1: a Day 2: b Day 3: c'')
                then m_start (finditer sep_day_colon ''Day 1: a Day 2: b Day 3: c'' ! (1 + 1))
                else length ''Day 1: a Day 2: b Day 3: c'') \<and>
           m_start (finditer sep_day_colon ''Day 1: a Day 2: b Day 3: c'' ! 1) < e \<and>
           e \<le> length ''Day 1: a Day 2: b Day 3: c'' \<and>
           map_of wp (decimal (m_group1 (finditer sep_day_colon ''Day 1: a Day 2: b Day 3: c'' ! 1)))
             = Some (strip (take (e - m_start (finditer sep_day_colon ''Day 1: a Day 2: b Day 3: c'' ! 1))
                              (drop (m_start (finditer sep_day_colon ''Day 1: a Day 2: b Day 3: c'' ! 1))
                                 ''Day 1: a Day 2: b Day 3: c'')))) \<and>
   segment ''Day 1: a Day 2: b Day 3: c'' 2 = Inr [(1, ''Day 1: a''), (2, ''Day 2: b'')]"
proof -
  have h1: "selected_separator ''Day 1: a Day 2: b Day 3: c'' 2 = Some sep_day_colon" by code_simp
  have w: "digits_within_limit ''Day 1: a Day 2: b Day 3: c'' 2" by code_simp
  have h2: "(1::nat) < 2" by simp
  have h3: "\<forall>j. 1 < j \<and> j < (2::nat) \<longrightarrow>
           decimal (m_group1 (finditer sep_day_colon ''Day 1: a Day 2: b Day 3: c'' ! j))
             \<noteq> decimal (m_group1 (finditer sep_day_colon ''Day 1: a Day 2: b Day 3: c'' ! 1))"
    by auto
  have v: "segment ''Day 1: a Day 2: b Day 3: c'' 2 = Inr [(1, ''Day 1: a''), (2, ''Day 2: b'')]"
    by code_simp
  note c = segment_extent [OF h1 w h2 h3]
  show ?thesis by (intro conjI h1 w h2 c v)
qed

theorem last_segment_to_end_counterexample:
  "selected_separator ''Day 1: a Day 2: b'' 1 = Some sep_day_colon \<and>
   segment ''Day 1: a Day 2: b'' 1 = Inr [(1, ''Day 1: a'')] \<and>
   strip (drop (m_start (finditer sep_day_colon ''Day 1: a Day 2: b'' ! 0)) ''Day 1: a Day 2: b'')
     = ''Day 1: a Day 2: b'' \<and>
   map_of [(1::int, ''Day 1: a'')] 1 \<noteq> Some ''Day 1: a Day 2: b''"
  by code_simp

end
